theory Spec2Isabelle
  imports Complex_Main
begin

section \<open>The number type of the host language\<close>

text \<open>
  \<^verbatim>\<open>Calculator.tsx\<close> computes with the \<^verbatim>\<open>number\<close> type of its host language: IEEE 754
  binary64 values. A finite value is represented here by the rational it denotes; negative
  zero, the two infinities and NaN are separate constructors. Arithmetic computes the exact
  rational result and rounds it to the nearest binary64 value, ties to even.
\<close>

datatype jsnum = Fin rat | NegZero | PosInfinity | NegInfinity | NaN

function bit_length :: "int \<Rightarrow> nat" where
  "bit_length n = (if n \<le> 0 then 0 else Suc (bit_length (n div 2)))"
  by pat_completeness auto
termination
  by (relation "measure nat") auto

declare bit_length.simps [simp del]

text \<open>For \<open>0 < a\<close>, the exponent \<open>e\<close> with \<open>2 ^ e \<le> a < 2 ^ (e + 1)\<close>.\<close>

definition floor_log2 :: "rat \<Rightarrow> int" where
  "floor_log2 a =
     (if 1 \<le> a then int (bit_length \<lfloor>a\<rfloor>) - 1
      else - int (bit_length (\<lceil>1 / a\<rceil> - 1)))"

definition round_half_even :: "rat \<Rightarrow> int" where
  "round_half_even r =
     (let f = \<lfloor>r\<rfloor>; d = r - of_int f
      in if d < 1 / 2 then f
         else if 1 / 2 < d then f + 1
         else if even f then f else f + 1)"

definition signed_zero :: "bool \<Rightarrow> jsnum" where
  "signed_zero neg = (if neg then NegZero else Fin 0)"

definition signed_inf :: "bool \<Rightarrow> jsnum" where
  "signed_inf neg = (if neg then NegInfinity else PosInfinity)"

text \<open>Every binary64 value is a multiple of \<open>2 ^ - 1074\<close>, the least subnormal.\<close>

definition grid_bits :: nat where
  "grid_bits = 1074"

text \<open>
  The spacing of the binary64 values around \<open>0 < a\<close>: 53 significant bits, and never finer
  than the least subnormal.
\<close>

definition ulp :: "rat \<Rightarrow> rat" where
  "ulp a = 2 powi (max (floor_log2 a - 52) (- int grid_bits))"

text \<open>The multiple of the spacing nearest to \<open>0 < a\<close>, ties to the even multiple.\<close>

definition round_magnitude :: "rat \<Rightarrow> rat" where
  "round_magnitude a = of_int (round_half_even (a / ulp a)) * ulp a"

text \<open>
  Rounding of an exact result to binary64: overflow to infinity from \<open>2 ^ 1024\<close> on,
  underflow to the zero of the same sign.
\<close>

definition overflow_threshold :: rat where
  "overflow_threshold = 2 ^ 1024"

definition round_double :: "rat \<Rightarrow> jsnum" where
  "round_double q =
     (if q = 0 then Fin 0
      else
        let r = round_magnitude \<bar>q\<bar>
        in if overflow_threshold \<le> r then signed_inf (q < 0)
           else if r = 0 then signed_zero (q < 0)
           else Fin (if q < 0 then - r else r))"

fun is_nan :: "jsnum \<Rightarrow> bool" where
  "is_nan NaN = True"
| "is_nan _ = False"

fun is_inf :: "jsnum \<Rightarrow> bool" where
  "is_inf PosInfinity = True"
| "is_inf NegInfinity = True"
| "is_inf _ = False"

fun is_zero :: "jsnum \<Rightarrow> bool" where
  "is_zero (Fin q) = (q = 0)"
| "is_zero NegZero = True"
| "is_zero _ = False"

fun negative :: "jsnum \<Rightarrow> bool" where
  "negative (Fin q) = (q < 0)"
| "negative NegZero = True"
| "negative NegInfinity = True"
| "negative _ = False"

fun value_of :: "jsnum \<Rightarrow> rat" where
  "value_of (Fin q) = q"
| "value_of _ = 0"

text \<open>\<^verbatim>\<open>Number.isFinite\<close>\<close>

fun isFinite :: "jsnum \<Rightarrow> bool" where
  "isFinite (Fin q) = True"
| "isFinite NegZero = True"
| "isFinite _ = False"

text \<open>\<^verbatim>\<open>a === b\<close> on numbers: NaN equals nothing, the two zeros are equal.\<close>

definition strict_eq :: "jsnum \<Rightarrow> jsnum \<Rightarrow> bool" where
  "strict_eq a b =
     (if is_nan a \<or> is_nan b then False
      else if is_zero a \<and> is_zero b then True
      else a = b)"

definition js_add :: "jsnum \<Rightarrow> jsnum \<Rightarrow> jsnum" where
  "js_add a b =
     (if is_nan a \<or> is_nan b then NaN
      else if is_inf a then (if is_inf b \<and> a \<noteq> b then NaN else a)
      else if is_inf b then b
      else if is_zero a \<and> is_zero b then signed_zero (negative a \<and> negative b)
      else let s = value_of a + value_of b
           in if s = 0 then Fin 0 else round_double s)"

definition js_neg :: "jsnum \<Rightarrow> jsnum" where
  "js_neg a =
     (case a of
        Fin q \<Rightarrow> (if q = 0 then NegZero else Fin (- q))
      | NegZero \<Rightarrow> Fin 0
      | PosInfinity \<Rightarrow> NegInfinity
      | NegInfinity \<Rightarrow> PosInfinity
      | NaN \<Rightarrow> NaN)"

definition js_sub :: "jsnum \<Rightarrow> jsnum \<Rightarrow> jsnum" where
  "js_sub a b = js_add a (js_neg b)"

definition js_mul :: "jsnum \<Rightarrow> jsnum \<Rightarrow> jsnum" where
  "js_mul a b =
     (if is_nan a \<or> is_nan b then NaN
      else if is_inf a \<or> is_inf b then
        (if is_zero a \<or> is_zero b then NaN else signed_inf (negative a \<noteq> negative b))
      else if is_zero a \<or> is_zero b then signed_zero (negative a \<noteq> negative b)
      else round_double (value_of a * value_of b))"

definition js_div :: "jsnum \<Rightarrow> jsnum \<Rightarrow> jsnum" where
  "js_div a b =
     (if is_nan a \<or> is_nan b then NaN
      else if is_inf a then
        (if is_inf b then NaN else signed_inf (negative a \<noteq> negative b))
      else if is_inf b then signed_zero (negative a \<noteq> negative b)
      else if is_zero b then
        (if is_zero a then NaN else signed_inf (negative a \<noteq> negative b))
      else if is_zero a then signed_zero (negative a \<noteq> negative b)
      else round_double (value_of a / value_of b))"


section \<open>Text to number: \<^verbatim>\<open>parseFloat\<close>\<close>

text \<open>
  Strings are sequences of 8-bit code units. \<^verbatim>\<open>parseFloat\<close> skips leading white space and
  reads the longest prefix that is a decimal literal: an optional sign, then
  \<^verbatim>\<open>Infinity\<close> or digits with an optional fraction and an optional exponent. With no such
  prefix the result is NaN. The value of the literal is rounded to binary64.
\<close>

definition is_digit :: "char \<Rightarrow> bool" where
  "is_digit c = (48 \<le> (of_char c :: int) \<and> (of_char c :: int) \<le> 57)"

definition digit_val :: "char \<Rightarrow> int" where
  "digit_val c = of_char c - 48"

definition digits_val :: "string \<Rightarrow> int" where
  "digits_val ds = foldl (\<lambda>acc c. 10 * acc + digit_val c) 0 ds"

definition is_whitespace :: "char \<Rightarrow> bool" where
  "is_whitespace c = ((of_char c :: int) \<in> {9, 10, 11, 12, 13, 32, 160})"

definition split_sign :: "string \<Rightarrow> bool \<times> string" where
  "split_sign s =
     (case s of
        [] \<Rightarrow> (False, s)
      | c # r \<Rightarrow>
          if c = CHR ''-'' then (True, r)
          else if c = CHR ''+'' then (False, r)
          else (False, s))"

definition fraction_part :: "string \<Rightarrow> string \<times> string" where
  "fraction_part r =
     (case r of
        [] \<Rightarrow> ([], r)
      | c # t \<Rightarrow>
          if c = CHR ''.'' then (takeWhile is_digit t, dropWhile is_digit t)
          else ([], r))"

definition exponent_part :: "string \<Rightarrow> int" where
  "exponent_part r =
     (case r of
        [] \<Rightarrow> 0
      | c # t \<Rightarrow>
          if c = CHR ''e'' \<or> c = CHR ''E'' then
            (let (eneg, d) = split_sign t; ds = takeWhile is_digit d
             in if ds = [] then 0
                else if eneg then - digits_val ds else digits_val ds)
          else 0)"

text \<open>
  The value of the longest decimal literal at the start of a text without sign, if there is
  one: digits, an optional fraction, an optional exponent, with a digit before or after the
  point.
\<close>

definition literal_value :: "string \<Rightarrow> rat option" where
  "literal_value t =
     (let ip = takeWhile is_digit t;
          (fp, r) = fraction_part (dropWhile is_digit t)
      in if ip = [] \<and> fp = [] then None
         else Some (of_int (digits_val (ip @ fp)) * 10 powi (exponent_part r - int (length fp))))"

definition parseFloat :: "string \<Rightarrow> jsnum" where
  "parseFloat str =
     (let (neg, t) = split_sign (dropWhile is_whitespace str)
      in if take 8 t = ''Infinity'' then signed_inf neg
         else
           case literal_value t of
             None \<Rightarrow> NaN
           | Some mv \<Rightarrow>
               if mv = 0 then signed_zero neg
               else round_double (if neg then - mv else mv))"

section \<open>Number to text: \<^verbatim>\<open>String\<close>\<close>

text \<open>
  \<^verbatim>\<open>String(x)\<close> prints the shortest decimal \<open>s \<times> 10 ^ (n - k)\<close>, with \<open>k\<close> digits \<open>s\<close>, that
  rounds to \<open>x\<close>; of the \<open>k\<close>-digit decimals only the two around \<open>x\<close> can do so. The layout
  depends on \<open>n\<close>: plain digits up to \<open>10 ^ 21\<close>, a leading \<^verbatim>\<open>0.\<close> down to \<open>10 ^ - 6\<close>,
  exponent notation otherwise.
\<close>

definition digit_char :: "int \<Rightarrow> char" where
  "digit_char d = ''0123456789'' ! nat d"

function digits_of :: "int \<Rightarrow> string" where
  "digits_of n = (if n < 10 then [digit_char n] else digits_of (n div 10) @ [digit_char (n mod 10)])"
  by pat_completeness auto
termination
  by (relation "measure nat") auto

declare digits_of.simps [simp del]

text \<open>For \<open>0 < x\<close>, the \<open>n\<close> with \<open>10 ^ (n - 1) \<le> x < 10 ^ n\<close>.\<close>

definition decimal_exponent :: "rat \<Rightarrow> int" where
  "decimal_exponent x =
     (if 1 \<le> x then int (length (digits_of \<lfloor>x\<rfloor>))
      else 1 - int (length (digits_of (\<lceil>1 / x\<rceil> - 1))))"

text \<open>The decimal \<open>s \<times> 10 ^ (n - k)\<close>, where \<open>k\<close> is the number of digits of \<open>s\<close>.\<close>

definition decimal_value :: "int \<times> int \<Rightarrow> rat" where
  "decimal_value sn = of_int (fst sn) * 10 powi (snd sn - int (length (digits_of (fst sn))))"

definition rounds_to :: "rat \<Rightarrow> int \<times> int \<Rightarrow> bool" where
  "rounds_to x sn = (round_double (decimal_value sn) = Fin x)"

text \<open>
  The \<open>k\<close>-digit candidates for \<open>0 < x\<close>: the decimal just below or at \<open>x\<close> and the one just
  above, which moves to the next decade when its digits overflow. Of two that round to \<open>x\<close>
  the closer one is taken, the even one on a tie.
\<close>

definition candidate :: "rat \<Rightarrow> int \<Rightarrow> nat \<Rightarrow> (int \<times> int) option" where
  "candidate x n k =
     (let scale = 10 powi (n - int k);
          lo = \<lfloor>x / scale\<rfloor>;
          hi = lo + 1;
          below = (lo, n);
          above = (if hi = 10 ^ k then (10 ^ (k - 1), n + 1) else (hi, n));
          dl = x - of_int lo * scale;
          dh = of_int hi * scale - x
      in if rounds_to x below \<and> rounds_to x above then
           (if dl < dh \<or> (dl = dh \<and> even lo) then Some below else Some above)
         else if rounds_to x below then Some below
         else if rounds_to x above then Some above
         else None)"

fun shortest_from :: "rat \<Rightarrow> int \<Rightarrow> nat \<Rightarrow> nat \<Rightarrow> (int \<times> int) option" where
  "shortest_from x n k 0 = None"
| "shortest_from x n k (Suc j) =
     (case candidate x n k of
        Some sn \<Rightarrow> Some sn
      | None \<Rightarrow> shortest_from x n (Suc k) j)"

text \<open>
  Seventeen digits determine a binary64 value, so the search stops there. The exact
  expansion in units of \<open>10 ^ - 1074\<close>, which every binary64 value has, makes the
  function total.
\<close>

definition shortest_decimal :: "rat \<Rightarrow> int \<times> int" where
  "shortest_decimal x =
     (case shortest_from x (decimal_exponent x) 1 17 of
        Some sn \<Rightarrow> sn
      | None \<Rightarrow>
          (let s = \<lfloor>x * 10 ^ grid_bits\<rfloor>
           in (s, int (length (digits_of s)) - int grid_bits)))"

definition layout :: "int \<times> int \<Rightarrow> string" where
  "layout sn =
     (let ds = digits_of (fst sn); n = snd sn; k = int (length ds)
      in if k \<le> n \<and> n \<le> 21 then ds @ replicate (nat (n - k)) CHR ''0''
         else if 0 < n \<and> n \<le> 21 then take (nat n) ds @ ''.'' @ drop (nat n) ds
         else if - 6 < n \<and> n \<le> 0 then ''0.'' @ replicate (nat (- n)) CHR ''0'' @ ds
         else
           let ex = (if 0 \<le> n - 1 then ''+'' else ''-'') @ digits_of \<bar>n - 1\<bar>
           in if k = 1 then ds @ ''e'' @ ex
              else take 1 ds @ ''.'' @ drop 1 ds @ ''e'' @ ex)"

definition numToString :: "jsnum \<Rightarrow> string" where
  "numToString x =
     (case x of
        NaN \<Rightarrow> ''NaN''
      | PosInfinity \<Rightarrow> ''Infinity''
      | NegInfinity \<Rightarrow> ''-Infinity''
      | NegZero \<Rightarrow> ''0''
      | Fin q \<Rightarrow>
          if q = 0 then ''0''
          else if q < 0 then ''-'' @ layout (shortest_decimal (- q))
          else layout (shortest_decimal q))"

section \<open>The calculator\<close>

text \<open>
  The state of the component \<^verbatim>\<open>Calculator\<close> and its handlers, as in
  \<^verbatim>\<open>components/Calculator.tsx\<close>. A field that is \<^verbatim>\<open>null\<close> in the source is \<open>None\<close> here.
  Every handler passes a function of the previous state to \<^verbatim>\<open>setCalcState\<close>; that function
  is what is modelled.
\<close>

record CalculatorState =
  displayValue :: string
  operator :: "string option"
  firstOperand :: "jsnum option"
  waitingForSecondOperand :: bool
  activeOperator :: "string option"

definition initialState :: CalculatorState where
  "initialState =
     \<lparr>displayValue = ''0'', operator = None, firstOperand = None,
      waitingForSecondOperand = False, activeOperator = None\<rparr>"

text \<open>
  The state that \<^verbatim>\<open>handleOperator\<close> and \<^verbatim>\<open>handleEquals\<close> return when the result is not
  finite.
\<close>

definition errorState :: CalculatorState where
  "errorState =
     \<lparr>displayValue = ''Error'', operator = None, firstOperand = None,
      waitingForSecondOperand = False, activeOperator = None\<rparr>"

text \<open>
  The \<^verbatim>\<open>switch\<close> over the operator; \<^verbatim>\<open>operand2 === 0\<close> holds for both zeros, and an unknown
  operator gives back the second operand.
\<close>

definition performOperation :: "string \<Rightarrow> jsnum \<Rightarrow> jsnum \<Rightarrow> jsnum" where
  "performOperation opr operand1 operand2 =
     (if opr = ''+'' then js_add operand1 operand2
      else if opr = ''-'' then js_sub operand1 operand2
      else if opr = ''*'' then js_mul operand1 operand2
      else if opr = ''/'' then
        (if strict_eq operand2 (Fin 0) then PosInfinity else js_div operand1 operand2)
      else operand2)"

definition handleDigit :: "string \<Rightarrow> CalculatorState \<Rightarrow> CalculatorState" where
  "handleDigit digit prevState =
     prevState
       \<lparr>displayValue :=
          (if waitingForSecondOperand prevState \<or> displayValue prevState = ''0'' then digit
           else displayValue prevState @ digit),
        waitingForSecondOperand := False,
        activeOperator := None\<rparr>"

text \<open>
  In \<^verbatim>\<open>handleOperator\<close> the test \<^verbatim>\<open>else if (prevState.operator)\<close> fails for \<^verbatim>\<open>null\<close> and for
  the empty string; the state is then returned as it is.
\<close>

definition handleOperator :: "string \<Rightarrow> CalculatorState \<Rightarrow> CalculatorState" where
  "handleOperator nextOperator prevState =
     (let inputValue = parseFloat (displayValue prevState)
      in if activeOperator prevState = Some nextOperator \<and> waitingForSecondOperand prevState
         then prevState
         else
           case firstOperand prevState of
             None \<Rightarrow>
               prevState
                 \<lparr>firstOperand := Some inputValue,
                  operator := Some nextOperator,
                  waitingForSecondOperand := True,
                  activeOperator := Some nextOperator\<rparr>
           | Some first \<Rightarrow>
               (case operator prevState of
                  None \<Rightarrow> prevState
                | Some opr \<Rightarrow>
                    if opr = [] then prevState
                    else
                      let result = performOperation opr first inputValue
                      in if \<not> isFinite result then errorState
                         else
                           prevState
                             \<lparr>displayValue := numToString result,
                              firstOperand := Some result,
                              operator := Some nextOperator,
                              waitingForSecondOperand := True,
                              activeOperator := Some nextOperator\<rparr>))"

definition handleDecimal :: "CalculatorState \<Rightarrow> CalculatorState" where
  "handleDecimal prevState =
     (if waitingForSecondOperand prevState then
        prevState
          \<lparr>displayValue := ''0.'',
           waitingForSecondOperand := False,
           activeOperator := None\<rparr>
      else if CHR ''.'' \<notin> set (displayValue prevState) then
        prevState
          \<lparr>displayValue := displayValue prevState @ ''.'',
           activeOperator := None\<rparr>
      else prevState)"

definition handleClear :: "CalculatorState \<Rightarrow> CalculatorState" where
  "handleClear prevState = initialState"

definition handleEquals :: "CalculatorState \<Rightarrow> CalculatorState" where
  "handleEquals prevState =
     (case (firstOperand prevState, operator prevState) of
        (Some first, Some opr) \<Rightarrow>
          (let secondOperand = parseFloat (displayValue prevState);
               result = performOperation opr first secondOperand
           in if \<not> isFinite result then errorState
              else
                \<lparr>displayValue = numToString result, operator = None, firstOperand = None,
                 waitingForSecondOperand = False, activeOperator = None\<rparr>)
      | _ \<Rightarrow> prevState\<lparr>activeOperator := None\<rparr>)"

text \<open>The handlers written inline at the buttons \<^verbatim>\<open>+/-\<close> and \<^verbatim>\<open>%\<close>.\<close>

definition toggleSign :: "CalculatorState \<Rightarrow> CalculatorState" where
  "toggleSign prevState =
     prevState\<lparr>displayValue := numToString (js_mul (parseFloat (displayValue prevState)) (Fin (- 1)))\<rparr>"

definition percent :: "CalculatorState \<Rightarrow> CalculatorState" where
  "percent prevState =
     prevState\<lparr>displayValue := numToString (js_div (parseFloat (displayValue prevState)) (Fin 100))\<rparr>"

subsection \<open>Button presses\<close>

text \<open>
  The keypad has ten digit buttons, four operator buttons, and one button each for the
  decimal point, equals, sign change, percent and clear. A button passes its own label to
  its handler.
\<close>

datatype event = Digit string | Decimal | Operator string | Equals | ToggleSign | Percent | Clear

definition digit_labels :: "string list" where
  "digit_labels = [''7'', ''8'', ''9'', ''4'', ''5'', ''6'', ''1'', ''2'', ''3'', ''0'']"

definition operator_labels :: "string list" where
  "operator_labels = [''/'', ''*'', ''-'', ''+'']"

fun on_keypad :: "event \<Rightarrow> bool" where
  "on_keypad (Digit d) = (d \<in> set digit_labels)"
| "on_keypad (Operator opr) = (opr \<in> set operator_labels)"
| "on_keypad _ = True"

fun press :: "CalculatorState \<Rightarrow> event \<Rightarrow> CalculatorState" where
  "press s (Digit d) = handleDigit d s"
| "press s Decimal = handleDecimal s"
| "press s (Operator opr) = handleOperator opr s"
| "press s Equals = handleEquals s"
| "press s ToggleSign = toggleSign s"
| "press s Percent = percent s"
| "press s Clear = handleClear s"

text \<open>
  A session is a list of presses, starting from the initial state; the reachable states are
  those that presses of keypad buttons lead to.
\<close>

definition run :: "event list \<Rightarrow> CalculatorState" where
  "run es = foldl press initialState es"

inductive reachable :: "CalculatorState \<Rightarrow> bool" where
  start: "reachable initialState"
| step: "reachable s \<Longrightarrow> on_keypad e \<Longrightarrow> reachable (press s e)"

subsection \<open>Texts on the display\<close>



section \<open>Evaluation on concrete inputs\<close>

lemma floor_numeral_div: "\<lfloor>numeral a / numeral b :: rat\<rfloor> = numeral a div numeral b"
  using floor_divide_of_int_eq [of "numeral a" "numeral b", where ?'a = rat] by simp

lemma ceiling_numeral_div: "\<lceil>numeral a / numeral b :: rat\<rceil> = - (- numeral a div numeral b)"
  using floor_divide_of_int_eq [of "- numeral a" "numeral b", where ?'a = rat]
  by (simp add: ceiling_def)

lemma bit_length_nonpos: "n \<le> 0 \<Longrightarrow> bit_length n = 0"
  by (simp add: bit_length.simps)

lemma bit_length_pos: "0 < n \<Longrightarrow> bit_length n = Suc (bit_length (n div 2))"
  by (subst bit_length.simps) simp

lemma digits_of_small: "n < 10 \<Longrightarrow> digits_of n = [digit_char n]"
  by (simp add: digits_of.simps)

lemma digits_of_large:
  "10 \<le> n \<Longrightarrow> digits_of n = digits_of (n div 10) @ [digit_char (n mod 10)]"
  by (subst digits_of.simps) simp

lemmas number_eval =
  floor_numeral_div ceiling_numeral_div bit_length_nonpos bit_length_pos
  digits_of_small digits_of_large digit_char_def
  round_double_def overflow_threshold_def round_magnitude_def ulp_def grid_bits_def floor_log2_def
  round_half_even_def Let_def
  signed_zero_def signed_inf_def strict_eq_def js_add_def js_sub_def js_neg_def js_mul_def js_div_def

lemmas parse_eval =
  parseFloat_def literal_value_def split_sign_def fraction_part_def exponent_part_def
  is_digit_def is_whitespace_def digits_val_def digit_val_def

lemmas print_eval =
  numToString_def shortest_decimal_def layout_def candidate_def decimal_exponent_def
  rounds_to_def decimal_value_def eval_nat_numeral

lemmas handler_eval =
  handleDigit_def handleOperator_def handleDecimal_def handleClear_def handleEquals_def
  toggleSign_def percent_def initialState_def errorState_def

lemma run_Nil: "run [] = initialState"
  by (simp add: run_def)

lemma run_snoc: "run (es @ [e]) = press (run es) e"
  by (simp add: run_def)

lemma reachable_run: "list_all on_keypad es \<Longrightarrow> reachable (run es)"
proof (induction es rule: rev_induct)
  case Nil
  show ?case by (simp add: run_Nil reachable.start)
next
  case (snoc e es)
  then show ?case by (simp add: run_snoc reachable.step)
qed

lemmas keypad_eval = digit_labels_def operator_labels_def

lemma parseFloat_eval:
  "parseFloat ''0'' = Fin 0" "parseFloat ''2'' = Fin 2" "parseFloat ''3'' = Fin 3"
  "parseFloat ''4'' = Fin 4" "parseFloat ''5'' = Fin 5" "parseFloat ''Error'' = NaN"
  by (simp_all add: parse_eval number_eval)

lemma performOperation_eval:
  "performOperation ''+'' (Fin 2) (Fin 3) = Fin 5"
  "performOperation ''*'' (Fin 5) (Fin 4) = Fin 20"
  by (simp_all add: performOperation_def number_eval)

lemma numToString_5: "numToString (Fin 5) = ''5''"
  by (simp add: print_eval number_eval)

lemma numToString_20: "numToString (Fin 20) = ''20''"
  by (simp add: print_eval number_eval)


lemma divide_by_zero: "performOperation ''/'' a (Fin 0) = PosInfinity"
  "performOperation ''/'' a NegZero = PosInfinity"
  by (simp_all add: performOperation_def strict_eq_def)

text \<open>Some short sessions, evaluated once.\<close>

lemma run_5_div_0: "run [Digit ''5'', Operator ''/'', Digit ''0'', Equals] = errorState"
  by (simp add: run_def handler_eval parseFloat_eval divide_by_zero)

lemma run_3_plus:
  "run [Digit ''3'', Operator ''+''] =
     \<lparr>displayValue = ''3'', operator = Some ''+'', firstOperand = Some (Fin 3),
      waitingForSecondOperand = True, activeOperator = Some ''+''\<rparr>"
  by (simp add: run_def handler_eval parseFloat_eval)

lemma run_chain:
  "run [Digit ''2'', Operator ''+'', Digit ''3'', Operator ''*'', Digit ''4'', Equals] =
     \<lparr>displayValue = ''20'', operator = None, firstOperand = None,
      waitingForSecondOperand = False, activeOperator = None\<rparr>"
  by (simp add: run_def handler_eval parseFloat_eval performOperation_eval
      numToString_5 numToString_20)

section \<open>Properties of the transitions\<close>

text \<open>
  C6. Pressing an operator that is already highlighted while the calculator waits for the
  second operand changes nothing; in particular a second \<^verbatim>\<open>+\<close> after \<^verbatim>\<open>3 +\<close> leaves the
  state as it was.
\<close>

theorem operator_repeat_noop:
  "(activeOperator s = Some opr \<and> waitingForSecondOperand s \<longrightarrow> press s (Operator opr) = s) \<and>
   run [Digit ''3'', Operator ''+'', Operator ''+''] = run [Digit ''3'', Operator ''+'']"
proof -
  have "run [Digit ''3'', Operator ''+'', Operator ''+''] =
      press (run [Digit ''3'', Operator ''+'']) (Operator ''+'')"
    using run_snoc [of "[Digit ''3'', Operator ''+'']" "Operator ''+''"] by simp
  then show ?thesis
    by (simp add: run_3_plus handleOperator_def)
qed

theorem operator_repeat_noop_witness:
  "activeOperator (run [Digit ''3'', Operator ''+'']) = Some ''+'' \<and>
   waitingForSecondOperand (run [Digit ''3'', Operator ''+'']) \<and>
   press (run [Digit ''3'', Operator ''+'']) (Operator ''+'') = run [Digit ''3'', Operator ''+'']"
proof -
  have a: "activeOperator (run [Digit ''3'', Operator ''+'']) = Some ''+''"
    by (simp add: run_3_plus)
  have w: "waitingForSecondOperand (run [Digit ''3'', Operator ''+''])"
    by (simp add: run_3_plus)
  from operator_repeat_noop [of "run [Digit ''3'', Operator ''+'']" "''+''"] a w
  have "press (run [Digit ''3'', Operator ''+'']) (Operator ''+'') = run [Digit ''3'', Operator ''+'']"
    by blast
  with a w show ?thesis by blast
qed

text \<open>
  C9. The sign change and the percent key replace \<open>displayValue\<close> only: the pending
  operator, the first operand, the waiting flag and the highlight are as before.
\<close>

theorem toggleSign_percent_frame:
  "operator (press s ToggleSign) = operator s \<and>
   firstOperand (press s ToggleSign) = firstOperand s \<and>
   waitingForSecondOperand (press s ToggleSign) = waitingForSecondOperand s \<and>
   activeOperator (press s ToggleSign) = activeOperator s \<and>
   operator (press s Percent) = operator s \<and>
   firstOperand (press s Percent) = firstOperand s \<and>
   waitingForSecondOperand (press s Percent) = waitingForSecondOperand s \<and>
   activeOperator (press s Percent) = activeOperator s"
  by (simp add: toggleSign_def percent_def)

text \<open>
  C4. Operators are applied eagerly from left to right: \<^verbatim>\<open>2 + 3 * 4 =\<close> shows
  \<^verbatim>\<open>20\<close>, that is \<open>(2 + 3) * 4\<close>, and not \<^verbatim>\<open>14\<close>.
\<close>

theorem chained_operators_left_to_right:
  "displayValue (run [Digit ''2'', Operator ''+'', Digit ''3'', Operator ''*'', Digit ''4'', Equals])
     = ''20'' \<and>
   displayValue (run [Digit ''2'', Operator ''+'', Digit ''3'', Operator ''*'', Digit ''4'', Equals])
     \<noteq> ''14''"
  by (simp add: run_chain)

text \<open>
  C5. Dividing by zero gives positive infinity whatever the dividend, for either zero, and
  \<^verbatim>\<open>5 / 0 =\<close> ends in the error state: the display reads \<^verbatim>\<open>Error\<close>, and neither an
  operator nor a first operand is pending.
\<close>

theorem division_by_zero_error:
  "performOperation ''/'' a (Fin 0) = PosInfinity \<and>
   performOperation ''/'' a NegZero = PosInfinity \<and>
   displayValue (run [Digit ''5'', Operator ''/'', Digit ''0'', Equals]) = ''Error'' \<and>
   operator (run [Digit ''5'', Operator ''/'', Digit ''0'', Equals]) = None \<and>
   firstOperand (run [Digit ''5'', Operator ''/'', Digit ''0'', Equals]) = None"
  by (simp add: divide_by_zero run_5_div_0 errorState_def)

text \<open>
  C10. The highlight is only shown while the calculator waits for the second operand:
  in every reachable state a highlighted operator implies the waiting flag, and every
  transition, from any state, preserves this.
\<close>

lemma highlight_press:
  "activeOperator s \<noteq> None \<longrightarrow> waitingForSecondOperand s \<Longrightarrow>
   activeOperator (press s e) \<noteq> None \<longrightarrow> waitingForSecondOperand (press s e)"
  by (cases e)
    (auto simp: handleDigit_def handleOperator_def handleDecimal_def handleClear_def
      handleEquals_def toggleSign_def percent_def initialState_def errorState_def Let_def
      split: option.splits if_splits)

lemma highlight_reachable:
  "reachable s \<Longrightarrow> activeOperator s \<noteq> None \<longrightarrow> waitingForSecondOperand s"
proof (induction rule: reachable.induct)
  case start
  show ?case by (simp add: initialState_def)
next
  case (step s e)
  then show ?case using highlight_press [of s e] by blast
qed

theorem highlight_implies_waiting:
  "(reachable s \<longrightarrow> activeOperator s \<noteq> None \<longrightarrow> waitingForSecondOperand s) \<and>
   ((activeOperator s \<noteq> None \<longrightarrow> waitingForSecondOperand s) \<longrightarrow>
    activeOperator (press s e) \<noteq> None \<longrightarrow> waitingForSecondOperand (press s e))"
  using highlight_reachable [of s] highlight_press [of s e] by blast

theorem highlight_implies_waiting_witness:
  "reachable (run [Digit ''3'', Operator ''+'']) \<and>
   activeOperator (run [Digit ''3'', Operator ''+'']) \<noteq> None \<and>
   waitingForSecondOperand (run [Digit ''3'', Operator ''+'']) \<and>
   (activeOperator (press (run [Digit ''3'', Operator ''+'']) ToggleSign) \<noteq> None \<and>
    waitingForSecondOperand (press (run [Digit ''3'', Operator ''+'']) ToggleSign))"
proof -
  let ?s = "run [Digit ''3'', Operator ''+'']"
  have r: "reachable ?s"
    by (rule reachable_run) (simp add: keypad_eval)
  have a: "activeOperator ?s \<noteq> None"
    by (simp add: run_3_plus)
  have a': "activeOperator (press ?s ToggleSign) \<noteq> None"
    by (simp add: run_3_plus toggleSign_def)
  from highlight_implies_waiting [of ?s ToggleSign] r a a'
  have "waitingForSecondOperand ?s \<and> waitingForSecondOperand (press ?s ToggleSign)"
    by blast
  with r a a' show ?thesis by blast
qed

text \<open>
  C2, as the code has it. A digit pressed in the error state is appended to the display,
  as to any display other than \<^verbatim>\<open>0\<close>: the result reads \<^verbatim>\<open>Error\<close> followed by the digit.
  No fresh number is started.
\<close>

theorem digit_in_error_state_appends:
  "displayValue s = ''Error'' \<Longrightarrow> \<not> waitingForSecondOperand s \<Longrightarrow>
   displayValue (press s (Digit d)) = ''Error'' @ d"
  by (simp add: handleDigit_def)

theorem digit_in_error_state_appends_witness:
  "displayValue errorState = ''Error'' \<and> \<not> waitingForSecondOperand errorState \<and>
   displayValue (press errorState (Digit ''5'')) = ''Error5''"
proof -
  have d: "displayValue errorState = ''Error''" and w: "\<not> waitingForSecondOperand errorState"
    by (simp_all add: errorState_def)
  from digit_in_error_state_appends [OF d w, of "''5''"] d w show ?thesis by simp
qed

theorem digit_in_error_state_counterexample:
  "displayValue (run [Digit ''5'', Operator ''/'', Digit ''0'', Equals]) = ''Error'' \<and>
   operator (run [Digit ''5'', Operator ''/'', Digit ''0'', Equals]) = None \<and>
   firstOperand (run [Digit ''5'', Operator ''/'', Digit ''0'', Equals]) = None \<and>
   displayValue (press (run [Digit ''5'', Operator ''/'', Digit ''0'', Equals]) (Digit ''5''))
     \<noteq> ''5''"
  by (simp add: run_5_div_0 errorState_def handleDigit_def)

section \<open>The characters that \<^verbatim>\<open>String\<close> prints\<close>

lemma digit_char_mem: "d < 10 \<Longrightarrow> digit_char d \<in> set ''0123456789''"
proof -
  assume "d < 10"
  then have "nat d < length ''0123456789''" by simp
  then show ?thesis unfolding digit_char_def by (rule nth_mem)
qed

lemma digits_of_set: "set (digits_of n) \<subseteq> set ''0123456789''"
proof (induction n rule: digits_of.induct)
  case (1 n)
  show ?case
  proof (cases "n < 10")
    case True
    then show ?thesis using digit_char_mem [of n] by (simp add: digits_of_small)
  next
    case False
    then have "set (digits_of (n div 10)) \<subseteq> set ''0123456789''" using "1" by simp
    moreover have "digit_char (n mod 10) \<in> set ''0123456789''"
      by (rule digit_char_mem) simp
    ultimately show ?thesis using False by (simp add: digits_of_large)
  qed
qed

lemma digits_of_nonempty: "digits_of n \<noteq> []"
  by (subst digits_of.simps) simp

lemma digits_of_no_point: "CHR ''.'' \<notin> set (digits_of n)"
  using digits_of_set [of n] by auto

lemma digits_of_no_E: "CHR ''E'' \<notin> set (digits_of n)"
  using digits_of_set [of n] by auto

lemma take_digits_no_point: "CHR ''.'' \<notin> set (take m (digits_of n))"
  using digits_of_no_point [of n] by (auto dest: in_set_takeD)

lemma drop_digits_no_point: "CHR ''.'' \<notin> set (drop m (digits_of n))"
  using digits_of_no_point [of n] by (auto dest: in_set_dropD)

lemma take_digits_no_E: "CHR ''E'' \<notin> set (take m (digits_of n))"
  using digits_of_no_E [of n] by (auto dest: in_set_takeD)

lemma drop_digits_no_E: "CHR ''E'' \<notin> set (drop m (digits_of n))"
  using digits_of_no_E [of n] by (auto dest: in_set_dropD)


lemma layout_no_E: "CHR ''E'' \<notin> set (layout sn)"
  by (simp add: layout_def Let_def digits_of_no_E take_digits_no_E drop_digits_no_E)

lemma layout_points: "count_list (layout sn) CHR ''.'' \<le> 1"
  by (simp add: layout_def Let_def count_list_0_iff [THEN iffD2] digits_of_no_point
      take_digits_no_point drop_digits_no_point)


lemma numToString_no_E: "CHR ''E'' \<notin> set (numToString x)"
  by (cases x) (simp_all add: numToString_def layout_no_E)

lemma numToString_not_Error: "numToString x \<noteq> ''Error''"
  using numToString_no_E [of x] by auto

lemma numToString_points: "count_list (numToString x) CHR ''.'' \<le> 1"
  using layout_points by (cases x) (simp_all add: numToString_def)


section \<open>Invariants of the reachable states\<close>

lemma is_digit_chars:
  "is_digit CHR ''0''" "is_digit CHR ''1''" "is_digit CHR ''2''" "is_digit CHR ''3''"
  "is_digit CHR ''4''" "is_digit CHR ''5''" "is_digit CHR ''6''" "is_digit CHR ''7''"
  "is_digit CHR ''8''" "is_digit CHR ''9''"
  by (simp_all add: is_digit_def)

lemma not_digit_chars:
  "\<not> is_digit CHR ''.''" "\<not> is_digit CHR ''r''" "\<not> is_digit CHR ''e''"
  "\<not> is_digit CHR ''+''" "\<not> is_digit CHR ''-''" "\<not> is_digit CHR ''I''"
  by (simp_all add: is_digit_def)

lemma digit_label_shape:
  assumes "d \<in> set digit_labels"
  shows "\<exists>c. d = [c] \<and> is_digit c"
proof -
  have "list_all (\<lambda>d. \<exists>c. d = [c] \<and> is_digit c) digit_labels"
    by (simp add: digit_labels_def is_digit_chars)
  with assms show ?thesis by (simp add: list_all_iff)
qed

lemma digit_not_point: "is_digit c \<Longrightarrow> c \<noteq> CHR ''.''"
  using not_digit_chars by blast

lemma digit_not_r: "is_digit c \<Longrightarrow> c \<noteq> CHR ''r''"
  using not_digit_chars by blast

lemma append_digit_not_Error: "is_digit c \<Longrightarrow> xs @ [c] \<noteq> ''Error''"
proof
  assume d: "is_digit c" and e: "xs @ [c] = ''Error''"
  from e have "last (xs @ [c]) = last ''Error''" by simp
  then have "c = CHR ''r''" by simp
  with d digit_not_r show False by blast
qed

lemma append_point_not_Error: "xs @ ''.'' \<noteq> ''Error''"
proof
  assume "xs @ ''.'' = ''Error''"
  then have "last (xs @ ''.'') = last ''Error''" by simp
  then show False by simp
qed

text \<open>
  What the display can be after an operator or the equals key: what it was, the error
  text, or a printed number.
\<close>

lemma handleOperator_display:
  "P (displayValue s) \<Longrightarrow> P ''Error'' \<Longrightarrow> (\<And>r. P (numToString r)) \<Longrightarrow>
   P (displayValue (handleOperator opr s))"
  by (simp add: handleOperator_def Let_def errorState_def split: option.splits)

lemma handleEquals_display:
  "P (displayValue s) \<Longrightarrow> P ''Error'' \<Longrightarrow> (\<And>r. P (numToString r)) \<Longrightarrow>
   P (displayValue (handleEquals s))"
  by (simp add: handleEquals_def Let_def errorState_def split: option.splits)


text \<open>The display holds at most one decimal point.\<close>

lemma display_points_press:
  assumes "count_list (displayValue s) CHR ''.'' \<le> 1" and "on_keypad e"
  shows "count_list (displayValue (press s e)) CHR ''.'' \<le> 1"
proof (cases e)
  case (Digit d)
  with assms obtain c where "d = [c]" "c \<noteq> CHR ''.''"
    using digit_label_shape [of d] digit_not_point by auto
  with Digit assms show ?thesis by (simp add: handleDigit_def)
next
  case Decimal
  with assms show ?thesis by (simp add: handleDecimal_def)
next
  case (Operator opr)
  have "count_list (displayValue (handleOperator opr s)) CHR ''.'' \<le> 1"
    by (rule handleOperator_display) (use assms numToString_points in simp_all)
  with Operator show ?thesis by simp
next
  case Equals
  have "count_list (displayValue (handleEquals s)) CHR ''.'' \<le> 1"
    by (rule handleEquals_display) (use assms numToString_points in simp_all)
  with Equals show ?thesis by simp
next
  case ToggleSign
  then show ?thesis using numToString_points by (simp add: toggleSign_def)
next
  case Percent
  then show ?thesis using numToString_points by (simp add: percent_def)
next
  case Clear
  then show ?thesis by (simp add: handleClear_def initialState_def)
qed

lemma display_points: "reachable s \<Longrightarrow> count_list (displayValue s) CHR ''.'' \<le> 1"
proof (induction rule: reachable.induct)
  case start
  show ?case by (simp add: initialState_def)
next
  case (step s e)
  then show ?case using display_points_press [of s e] by blast
qed

lemma handleDecimal_idem: "handleDecimal (handleDecimal s) = handleDecimal s"
  by (simp add: handleDecimal_def)

lemma handleDecimal_points:
  assumes "count_list (displayValue s) CHR ''.'' \<le> 1"
  shows "count_list (displayValue (handleDecimal s)) CHR ''.'' = 1"
proof (cases "CHR ''.'' \<in> set (displayValue s)")
  case True
  then have "count_list (displayValue s) CHR ''.'' \<noteq> 0"
    by (simp add: count_list_0_iff)
  with assms have "count_list (displayValue s) CHR ''.'' = 1" by linarith
  with True show ?thesis by (simp add: handleDecimal_def)
next
  case False
  then show ?thesis by (simp add: handleDecimal_def)
qed

section \<open>The error text on the display\<close>

lemma digit_label_not_Error: "d \<in> set digit_labels \<Longrightarrow> d \<noteq> ''Error''"
  using digit_label_shape [of d] by auto

lemma digit_append_not_Error: "d \<in> set digit_labels \<Longrightarrow> xs @ d \<noteq> ''Error''"
  using digit_label_shape [of d] append_digit_not_Error by auto

lemma error_pending_press:
  assumes "displayValue s = ''Error'' \<longrightarrow>
      operator s = None \<and> firstOperand s = None \<and> \<not> waitingForSecondOperand s \<or>
      operator s \<noteq> None \<and> firstOperand s = Some NaN \<and> waitingForSecondOperand s"
    and "on_keypad e"
  shows "displayValue (press s e) = ''Error'' \<longrightarrow>
      operator (press s e) = None \<and> firstOperand (press s e) = None \<and>
        \<not> waitingForSecondOperand (press s e) \<or>
      operator (press s e) \<noteq> None \<and> firstOperand (press s e) = Some NaN \<and>
        waitingForSecondOperand (press s e)"
proof (cases e)
  case (Digit d)
  with assms have "d \<in> set digit_labels" by simp
  then have "displayValue (handleDigit d s) \<noteq> ''Error''"
    by (simp add: handleDigit_def digit_label_not_Error digit_append_not_Error)
  with Digit show ?thesis by simp
next
  case Decimal
  show ?thesis
  proof (cases "waitingForSecondOperand s \<or> CHR ''.'' \<notin> set (displayValue s)")
    case True
    then have "displayValue (handleDecimal s) \<noteq> ''Error''"
      using append_point_not_Error [of "displayValue s"] by (auto simp: handleDecimal_def)
    with Decimal show ?thesis by simp
  next
    case False
    then have "handleDecimal s = s" by (simp add: handleDecimal_def)
    with Decimal assms show ?thesis by simp
  qed
next
  case (Operator opr)
  from assms(1) have "displayValue (handleOperator opr s) = ''Error'' \<longrightarrow>
      operator (handleOperator opr s) = None \<and> firstOperand (handleOperator opr s) = None \<and>
        \<not> waitingForSecondOperand (handleOperator opr s) \<or>
      operator (handleOperator opr s) \<noteq> None \<and> firstOperand (handleOperator opr s) = Some NaN \<and>
        waitingForSecondOperand (handleOperator opr s)"
    by (auto simp: handleOperator_def Let_def errorState_def numToString_not_Error
        parseFloat_eval split: option.splits)
  with Operator show ?thesis by simp
next
  case Equals
  from assms(1) have "displayValue (handleEquals s) = ''Error'' \<longrightarrow>
      operator (handleEquals s) = None \<and> firstOperand (handleEquals s) = None \<and>
        \<not> waitingForSecondOperand (handleEquals s) \<or>
      operator (handleEquals s) \<noteq> None \<and> firstOperand (handleEquals s) = Some NaN \<and>
        waitingForSecondOperand (handleEquals s)"
    by (auto simp: handleEquals_def Let_def errorState_def numToString_not_Error
        split: option.splits)
  with Equals show ?thesis by simp
next
  case ToggleSign
  then show ?thesis by (simp add: toggleSign_def numToString_not_Error)
next
  case Percent
  then show ?thesis by (simp add: percent_def numToString_not_Error)
next
  case Clear
  then show ?thesis by (simp add: handleClear_def initialState_def)
qed

lemma error_pending_reachable:
  "reachable s \<Longrightarrow>
   displayValue s = ''Error'' \<longrightarrow>
     operator s = None \<and> firstOperand s = None \<and> \<not> waitingForSecondOperand s \<or>
     operator s \<noteq> None \<and> firstOperand s = Some NaN \<and> waitingForSecondOperand s"
proof (induction rule: reachable.induct)
  case start
  show ?case by (simp add: initialState_def)
next
  case (step s e)
  from step.IH step.hyps(2) show ?case by (rule error_pending_press)
qed

lemma error_state_other_keys:
  assumes "displayValue s = ''Error''" "operator s = None" "firstOperand s = None"
    "\<not> waitingForSecondOperand s" "\<forall>opr. e \<noteq> Operator opr"
  shows "operator (press s e) = None \<and> firstOperand (press s e) = None \<and>
    \<not> waitingForSecondOperand (press s e)"
  using assms
  by (cases e)
    (simp_all add: handleDigit_def handleDecimal_def handleEquals_def toggleSign_def
      percent_def handleClear_def initialState_def)

lemma error_state_operator:
  assumes "displayValue s = ''Error''" "operator s = None" "firstOperand s = None"
    "\<not> waitingForSecondOperand s"
  shows "press s (Operator opr) =
    s\<lparr>firstOperand := Some NaN, operator := Some opr, waitingForSecondOperand := True,
      activeOperator := Some opr\<rparr>"
  using assms by (simp add: handleOperator_def parseFloat_eval)

lemma run_error_plus:
  "run [Digit ''5'', Operator ''/'', Digit ''0'', Equals, Operator ''+''] =
     \<lparr>displayValue = ''Error'', operator = Some ''+'', firstOperand = Some NaN,
      waitingForSecondOperand = True, activeOperator = Some ''+''\<rparr>"
  using run_snoc [of "[Digit ''5'', Operator ''/'', Digit ''0'', Equals]" "Operator ''+''"]
  by (simp add: run_5_div_0 errorState_def handleOperator_def parseFloat_eval)



text \<open>
  C1, as the code has it. No handler looks at the error text, so an operator pressed in
  the error state is recorded like any other: the display still reads \<^verbatim>\<open>Error\<close>, the
  operator is pending, the first operand is NaN and the calculator waits for the second
  operand. In every reachable state showing \<^verbatim>\<open>Error\<close> either nothing is pending or
  exactly this is the case. Applied in the error state, every key other than an operator
  leaves nothing pending.
\<close>

theorem error_display_pending:
  "(reachable s \<longrightarrow> displayValue s = ''Error'' \<longrightarrow>
      operator s = None \<and> firstOperand s = None \<and> \<not> waitingForSecondOperand s \<or>
      operator s \<noteq> None \<and> firstOperand s = Some NaN \<and> waitingForSecondOperand s) \<and>
   (displayValue s = ''Error'' \<and> operator s = None \<and> firstOperand s = None \<and>
      \<not> waitingForSecondOperand s \<longrightarrow>
      ((\<forall>k. e \<noteq> Operator k) \<longrightarrow>
         operator (press s e) = None \<and> firstOperand (press s e) = None \<and>
         \<not> waitingForSecondOperand (press s e)) \<and>
      displayValue (press s (Operator opr)) = ''Error'' \<and>
      operator (press s (Operator opr)) = Some opr \<and>
      firstOperand (press s (Operator opr)) = Some NaN \<and>
      waitingForSecondOperand (press s (Operator opr)))"
proof -
  have "reachable s \<longrightarrow> displayValue s = ''Error'' \<longrightarrow>
      operator s = None \<and> firstOperand s = None \<and> \<not> waitingForSecondOperand s \<or>
      operator s \<noteq> None \<and> firstOperand s = Some NaN \<and> waitingForSecondOperand s"
    using error_pending_reachable [of s] by blast
  moreover have "displayValue s = ''Error'' \<and> operator s = None \<and> firstOperand s = None \<and>
      \<not> waitingForSecondOperand s \<longrightarrow>
      ((\<forall>k. e \<noteq> Operator k) \<longrightarrow>
         operator (press s e) = None \<and> firstOperand (press s e) = None \<and>
         \<not> waitingForSecondOperand (press s e))"
    using error_state_other_keys [of s e] by blast
  moreover have "displayValue s = ''Error'' \<and> operator s = None \<and> firstOperand s = None \<and>
      \<not> waitingForSecondOperand s \<longrightarrow>
      displayValue (press s (Operator opr)) = ''Error'' \<and>
      operator (press s (Operator opr)) = Some opr \<and>
      firstOperand (press s (Operator opr)) = Some NaN \<and>
      waitingForSecondOperand (press s (Operator opr))"
    using error_state_operator [of s opr] by auto
  ultimately show ?thesis by blast
qed

theorem error_display_pending_witness:
  "reachable (run [Digit ''5'', Operator ''/'', Digit ''0'', Equals]) \<and>
   displayValue (run [Digit ''5'', Operator ''/'', Digit ''0'', Equals]) = ''Error'' \<and>
   operator (run [Digit ''5'', Operator ''/'', Digit ''0'', Equals]) = None \<and>
   firstOperand (run [Digit ''5'', Operator ''/'', Digit ''0'', Equals]) = None \<and>
   \<not> waitingForSecondOperand (run [Digit ''5'', Operator ''/'', Digit ''0'', Equals]) \<and>
   operator (press (run [Digit ''5'', Operator ''/'', Digit ''0'', Equals]) Decimal) = None \<and>
   firstOperand (press (run [Digit ''5'', Operator ''/'', Digit ''0'', Equals]) (Operator ''+''))
     = Some NaN"
proof -
  let ?s = "run [Digit ''5'', Operator ''/'', Digit ''0'', Equals]"
  have r: "reachable ?s"
    by (rule reachable_run) (simp add: keypad_eval)
  have d: "displayValue ?s = ''Error''" "operator ?s = None" "firstOperand ?s = None"
    "\<not> waitingForSecondOperand ?s"
    by (simp_all add: run_5_div_0 errorState_def)
  have k: "\<forall>k. Decimal \<noteq> Operator k" by simp
  from error_display_pending [of ?s Decimal "''+''"] d k
  have "operator (press ?s Decimal) = None \<and> firstOperand (press ?s (Operator ''+'')) = Some NaN"
    by blast
  with r d show ?thesis by blast
qed

theorem error_display_counterexample:
  "reachable (run [Digit ''5'', Operator ''/'', Digit ''0'', Equals, Operator ''+'']) \<and>
   displayValue (run [Digit ''5'', Operator ''/'', Digit ''0'', Equals, Operator ''+'']) = ''Error'' \<and>
   operator (run [Digit ''5'', Operator ''/'', Digit ''0'', Equals, Operator ''+'']) \<noteq> None \<and>
   firstOperand (run [Digit ''5'', Operator ''/'', Digit ''0'', Equals, Operator ''+'']) \<noteq> None \<and>
   waitingForSecondOperand (run [Digit ''5'', Operator ''/'', Digit ''0'', Equals, Operator ''+''])"
proof -
  have "reachable (run [Digit ''5'', Operator ''/'', Digit ''0'', Equals, Operator ''+''])"
    by (rule reachable_run) (simp add: keypad_eval)
  then show ?thesis by (simp add: run_error_plus)
qed

text \<open>
  C7. Pressing the decimal point twice is the same as pressing it once, in every state. In
  every reachable state the display then holds exactly one decimal point; so it does from
  any state whose display held at most one.
\<close>

theorem decimal_idempotent:
  "press (press s Decimal) Decimal = press s Decimal \<and>
   (count_list (displayValue s) CHR ''.'' \<le> 1 \<longrightarrow>
      count_list (displayValue (press s Decimal)) CHR ''.'' = 1) \<and>
   (reachable s \<longrightarrow> count_list (displayValue (press s Decimal)) CHR ''.'' = 1)"
  using handleDecimal_idem [of s] handleDecimal_points [of s] display_points [of s]
  by simp

theorem decimal_idempotent_witness:
  "reachable (run [Digit ''3'', Operator ''+'']) \<and>
   count_list (displayValue (run [Digit ''3'', Operator ''+''])) CHR ''.'' \<le> 1 \<and>
   count_list (displayValue (press (run [Digit ''3'', Operator ''+'']) Decimal)) CHR ''.'' = 1"
proof -
  have r: "reachable (run [Digit ''3'', Operator ''+''])"
    by (rule reachable_run) (simp add: keypad_eval)
  have c: "count_list (displayValue (run [Digit ''3'', Operator ''+''])) CHR ''.'' \<le> 1"
    by (simp add: run_3_plus)
  from decimal_idempotent [of "run [Digit ''3'', Operator ''+'']"] r c show ?thesis by blast
qed

section \<open>Rounding to binary64\<close>

lemma bit_length_bounds:
  "0 < n \<Longrightarrow> 2 ^ (bit_length n - 1) \<le> n \<and> n < 2 ^ bit_length n"
proof (induction n rule: bit_length.induct)
  case (1 n)
  show ?case
  proof (cases "n = 1")
    case True
    then show ?thesis by (simp add: bit_length_pos bit_length_nonpos)
  next
    case False
    with "1.prems" have h: "0 < n div 2" by simp
    with "1.IH" "1.prems" have ih: "2 ^ (bit_length (n div 2) - 1) \<le> n div 2"
      "n div 2 < 2 ^ bit_length (n div 2)"
      by simp_all
    from h have p: "0 < bit_length (n div 2)" by (simp add: bit_length_pos)
    have b: "bit_length n = Suc (bit_length (n div 2))"
      using "1.prems" by (rule bit_length_pos)
    from p have "(2::int) ^ bit_length (n div 2) = 2 * 2 ^ (bit_length (n div 2) - 1)"
      by (cases "bit_length (n div 2)") simp_all
    with ih(1) have "2 ^ bit_length (n div 2) \<le> 2 * (n div 2)" by simp
    also have "\<dots> \<le> n" by simp
    finally have lo: "2 ^ (bit_length n - 1) \<le> n" using b by simp
    from ih(2) have "n div 2 + 1 \<le> 2 ^ bit_length (n div 2)" by simp
    then have "2 * (n div 2) + 2 \<le> 2 * 2 ^ bit_length (n div 2)" by simp
    moreover have "n < 2 * (n div 2) + 2" by presburger
    ultimately have "n < 2 ^ bit_length n" using b by simp
    with lo show ?thesis by simp
  qed
qed

lemma floor_log2_lower: "0 < a \<Longrightarrow> 2 powi floor_log2 a \<le> a"
proof (cases "1 \<le> a")
  case True
  then have n: "0 < \<lfloor>a\<rfloor>" by simp
  then have p: "0 < bit_length \<lfloor>a\<rfloor>" by (simp add: bit_length_pos)
  from bit_length_bounds [OF n] have "(2::int) ^ (bit_length \<lfloor>a\<rfloor> - 1) \<le> \<lfloor>a\<rfloor>" by simp
  then have "(of_int (2 ^ (bit_length \<lfloor>a\<rfloor> - 1)) :: rat) \<le> of_int \<lfloor>a\<rfloor>"
    by (simp only: of_int_le_iff)
  also have "\<dots> \<le> a" by simp
  finally have "(2::rat) ^ (bit_length \<lfloor>a\<rfloor> - 1) \<le> a" by simp
  moreover have "floor_log2 a = int (bit_length \<lfloor>a\<rfloor> - 1)"
    using True p by (simp add: floor_log2_def)
  ultimately show ?thesis by simp
next
  case False
  assume a: "0 < a"
  let ?M = "\<lceil>1 / a\<rceil> - 1"
  from False a have "1 < 1 / a" by simp
  then have m: "0 < ?M" by linarith
  from bit_length_bounds [OF m] have "\<lceil>1 / a\<rceil> \<le> 2 ^ bit_length ?M" by simp
  then have "(of_int \<lceil>1 / a\<rceil> :: rat) \<le> of_int (2 ^ bit_length ?M)"
    by (simp only: of_int_le_iff)
  then have "(of_int \<lceil>1 / a\<rceil> :: rat) \<le> 2 ^ bit_length ?M" by simp
  moreover have "1 / a \<le> of_int \<lceil>1 / a\<rceil>" by (rule le_of_int_ceiling)
  ultimately have "1 / a \<le> 2 ^ bit_length ?M" by (rule order_trans [rotated])
  with a have "1 / 2 ^ bit_length ?M \<le> a"
    by (simp add: field_simps)
  moreover have "floor_log2 a = - int (bit_length ?M)"
    using False by (simp add: floor_log2_def)
  ultimately show ?thesis by (simp add: power_int_minus_divide)
qed

lemma floor_log2_upper: "0 < a \<Longrightarrow> a < 2 powi (floor_log2 a + 1)"
proof (cases "1 \<le> a")
  case True
  then have n: "0 < \<lfloor>a\<rfloor>" by simp
  then have p: "0 < bit_length \<lfloor>a\<rfloor>" by (simp add: bit_length_pos)
  from bit_length_bounds [OF n] have "\<lfloor>a\<rfloor> + 1 \<le> 2 ^ bit_length \<lfloor>a\<rfloor>" by simp
  then have "(of_int (\<lfloor>a\<rfloor> + 1) :: rat) \<le> of_int (2 ^ bit_length \<lfloor>a\<rfloor>)"
    by (simp only: of_int_le_iff)
  moreover have "a < of_int (\<lfloor>a\<rfloor> + 1)" by linarith
  ultimately have "a < 2 ^ bit_length \<lfloor>a\<rfloor>" by simp
  moreover have "floor_log2 a + 1 = int (bit_length \<lfloor>a\<rfloor>)"
    using True p by (simp add: floor_log2_def)
  ultimately show ?thesis by simp
next
  case False
  assume a: "0 < a"
  let ?M = "\<lceil>1 / a\<rceil> - 1"
  from False a have "1 < 1 / a" by simp
  then have m: "0 < ?M" by linarith
  then have p: "0 < bit_length ?M" by (simp add: bit_length_pos)
  from bit_length_bounds [OF m] have "(2::int) ^ (bit_length ?M - 1) \<le> ?M" by simp
  then have "(of_int (2 ^ (bit_length ?M - 1)) :: rat) \<le> of_int ?M"
    by (simp only: of_int_le_iff)
  moreover have "of_int ?M < 1 / a" by linarith
  ultimately have "2 ^ (bit_length ?M - 1) < 1 / a" by simp
  with a have "a < 1 / 2 ^ (bit_length ?M - 1)"
    by (simp add: field_simps)
  moreover have "floor_log2 a + 1 = - int (bit_length ?M - 1)"
    using False p by (simp add: floor_log2_def)
  ultimately show ?thesis by (simp add: power_int_minus_divide)
qed

lemma pow2_less_imp: "(2::rat) powi x < 2 powi y \<Longrightarrow> x < y"
proof (rule ccontr)
  assume l: "(2::rat) powi x < 2 powi y" and "\<not> x < y"
  then have "y \<le> x" by simp
  then have "(2::rat) powi y \<le> 2 powi x" by (rule power_int_increasing) simp
  with l show False by simp
qed

lemma floor_log2_eq:
  assumes "0 < a" "2 powi e \<le> a" "a < 2 powi (e + 1)"
  shows "floor_log2 a = e"
proof -
  from floor_log2_lower [OF assms(1)] assms(3)
  have "(2::rat) powi floor_log2 a < 2 powi (e + 1)" by (rule order_le_less_trans)
  then have "floor_log2 a < e + 1" by (rule pow2_less_imp)
  moreover from assms(2) floor_log2_upper [OF assms(1)]
  have "(2::rat) powi e < 2 powi (floor_log2 a + 1)" by (rule order_le_less_trans)
  then have "e < floor_log2 a + 1" by (rule pow2_less_imp)
  ultimately show ?thesis by simp
qed

lemma round_half_even_of_int: "round_half_even (of_int z) = z"
  by (simp add: round_half_even_def)

lemma round_half_even_le_ceiling: "round_half_even x \<le> \<lceil>x\<rceil>"
proof (cases "x - of_int \<lfloor>x\<rfloor> < 1 / 2")
  case True
  then have "round_half_even x = \<lfloor>x\<rfloor>" by (simp add: round_half_even_def)
  then show ?thesis by (simp add: floor_le_ceiling)
next
  case False
  then have "of_int \<lfloor>x\<rfloor> < x" by simp
  also have "x \<le> of_int \<lceil>x\<rceil>" by (rule le_of_int_ceiling)
  finally have "\<lfloor>x\<rfloor> < \<lceil>x\<rceil>" by (simp only: of_int_less_iff)
  moreover have "round_half_even x \<le> \<lfloor>x\<rfloor> + 1" by (simp add: round_half_even_def Let_def)
  ultimately show ?thesis by simp
qed

lemma round_half_even_nonneg: "0 \<le> x \<Longrightarrow> 0 \<le> round_half_even x"
proof -
  assume "0 \<le> x"
  then have "0 \<le> \<lfloor>x\<rfloor>" by simp
  also have "\<lfloor>x\<rfloor> \<le> round_half_even x" by (simp add: round_half_even_def Let_def)
  finally show ?thesis .
qed

lemma ulp_pos: "0 < ulp a"
  by (simp add: ulp_def)

lemma round_magnitude_nonneg: "0 \<le> a \<Longrightarrow> 0 \<le> round_magnitude a"
  using round_half_even_nonneg [of "a / ulp a"] ulp_pos [of a]
  by (simp add: round_magnitude_def)

text \<open>The rounded magnitude is a multiple of its own spacing.\<close>

lemma round_magnitude_grid:
  assumes a: "0 < a" and r: "0 < round_magnitude a"
  shows "\<exists>z. round_magnitude a = of_int z * ulp (round_magnitude a)"
proof -
  define e where "e = floor_log2 a"
  define ue where "ue = max (e - 52) (- int grid_bits)"
  define m where "m = round_half_even (a / ulp a)"
  define r where "r = round_magnitude a"
  define e' where "e' = floor_log2 r"
  define ue' where "ue' = max (e' - 52) (- int grid_bits)"
  have u: "ulp a = 2 powi ue" by (simp add: ulp_def ue_def e_def)
  have u': "ulp r = 2 powi ue'" by (simp add: ulp_def ue'_def e'_def)
  have rm: "r = of_int m * 2 powi ue" by (simp add: r_def round_magnitude_def m_def u)
  have rpos: "0 < r" using assms(2) by (simp add: r_def)
  have "a < 2 powi (e + 1)" unfolding e_def using a by (rule floor_log2_upper)
  then have "a / 2 powi ue < 2 powi (e + 1) / 2 powi ue"
    by (simp add: divide_strict_right_mono)
  also have "\<dots> = 2 powi (e + 1 - ue)" by (simp add: power_int_diff)
  also have "\<dots> \<le> 2 powi 53"
    by (rule power_int_increasing) (simp_all add: ue_def)
  finally have "a / ulp a < 2 ^ 53" by (simp add: u)
  then have "a / ulp a \<le> of_int (2 ^ 53)" by simp
  then have "\<lceil>a / ulp a\<rceil> \<le> 2 ^ 53" by (simp only: ceiling_le_iff)
  with round_half_even_le_ceiling [of "a / ulp a"] have "round_half_even (a / ulp a) \<le> 2 ^ 53"
    by (rule order_trans)
  then have m53: "m \<le> 2 ^ 53" by (simp only: m_def)
  have lo: "2 powi e' \<le> r" unfolding e'_def using rpos by (rule floor_log2_lower)
  have up: "r < 2 powi (e' + 1)" unfolding e'_def using rpos by (rule floor_log2_upper)
  show ?thesis
  proof (cases "m = 2 ^ 53")
    case True
    then have r53: "r = 2 powi (53 + ue)" by (simp add: rm power_int_add)
    from lo up have "e' = 53 + ue"
      using pow2_less_imp [of "53 + ue" "e' + 1"] pow2_less_imp [of e' "53 + ue + 1"]
        power_int_strict_increasing [of "53 + ue" "53 + ue + 1" "2::rat"]
      by (simp add: r53)
    then have "ue' = ue + 1" by (simp add: ue'_def ue_def)
    then have "r = of_int (2 ^ 52) * 2 powi ue'" by (simp add: r53 power_int_add)
    then show ?thesis unfolding r_def [symmetric] u' by blast
  next
    case False
    with m53 have "m < 2 ^ 53" by simp
    then have "(of_int m :: rat) < of_int (2 ^ 53)" by (simp only: of_int_less_iff)
    then have "r < 2 ^ 53 * 2 powi ue" by (simp add: rm)
    also have "\<dots> = 2 powi (53 + ue)" by (simp add: power_int_add)
    finally have "(2::rat) powi e' < 2 powi (53 + ue)" using lo by simp
    then have "e' < 53 + ue" by (rule pow2_less_imp)
    then have le: "ue' \<le> ue" by (simp add: ue'_def ue_def)
    then have "(2::rat) powi ue = 2 powi (ue - ue') * 2 powi ue'"
      by (simp add: power_int_add [symmetric])
    also have "(2::rat) powi (ue - ue') = of_int (2 ^ nat (ue - ue'))"
      using le by (simp add: power_int_def)
    finally have "r = of_int (m * 2 ^ nat (ue - ue')) * 2 powi ue'" by (simp add: rm)
    then show ?thesis unfolding r_def [symmetric] u' by blast
  qed
qed

lemma round_magnitude_idem:
  assumes "0 < a" "0 < round_magnitude a"
  shows "round_magnitude (round_magnitude a) = round_magnitude a"
proof -
  from round_magnitude_grid [OF assms] obtain z
    where z: "round_magnitude a = of_int z * ulp (round_magnitude a)" by blast
  have "round_magnitude a / ulp (round_magnitude a) = of_int z"
    using ulp_pos [of "round_magnitude a"] by (subst z) simp
  then have "round_magnitude (round_magnitude a) = of_int z * ulp (round_magnitude a)"
    by (simp add: round_magnitude_def [of "round_magnitude a"] round_half_even_of_int)
  with z show ?thesis by simp
qed

lemma round_double_nonzero:
  "q \<noteq> 0 \<Longrightarrow>
   round_double q =
     (if overflow_threshold \<le> round_magnitude \<bar>q\<bar> then signed_inf (q < 0)
      else if round_magnitude \<bar>q\<bar> = 0 then signed_zero (q < 0)
      else Fin (if q < 0 then - round_magnitude \<bar>q\<bar> else round_magnitude \<bar>q\<bar>))"
  by (simp add: round_double_def Let_def)

text \<open>What a finite, non-zero result of rounding looks like.\<close>

lemma round_double_Fin:
  assumes "round_double q = Fin r" "r \<noteq> 0"
  shows "q \<noteq> 0 \<and> 0 < round_magnitude \<bar>q\<bar> \<and> round_magnitude \<bar>q\<bar> < overflow_threshold \<and>
    r = (if q < 0 then - round_magnitude \<bar>q\<bar> else round_magnitude \<bar>q\<bar>)"
proof -
  from assms have q: "q \<noteq> 0" by (auto simp: round_double_def)
  have n: "0 \<le> round_magnitude \<bar>q\<bar>" by (rule round_magnitude_nonneg) simp
  note e = assms(1) [unfolded round_double_nonzero [OF q]]
  from e have o: "\<not> overflow_threshold \<le> round_magnitude \<bar>q\<bar>"
    by (auto simp: signed_inf_def split: if_splits)
  from e assms(2) have z: "round_magnitude \<bar>q\<bar> \<noteq> 0"
    by (auto simp: signed_inf_def signed_zero_def split: if_splits)
  from e o z have "r = (if q < 0 then - round_magnitude \<bar>q\<bar> else round_magnitude \<bar>q\<bar>)"
    by simp
  with o z q n show ?thesis by simp
qed

lemma round_double_idem:
  assumes "round_double q = Fin r"
  shows "round_double r = Fin r"
proof (cases "r = 0")
  case True
  then show ?thesis by (simp add: round_double_def)
next
  case False
  define m where "m = round_magnitude \<bar>q\<bar>"
  from round_double_Fin [OF assms False]
  have q: "q \<noteq> 0" and p: "0 < m" and b: "m < overflow_threshold"
    and r: "r = (if q < 0 then - m else m)"
    by (simp_all add: m_def)
  from q have "0 < \<bar>q\<bar>" by simp
  then have i: "round_magnitude m = m"
    unfolding m_def using p [unfolded m_def] by (rule round_magnitude_idem)
  from r p have a: "\<bar>r\<bar> = m" by (simp split: if_splits)
  from r p have s: "r < 0 \<longleftrightarrow> q < 0" by (simp split: if_splits)
  have "round_double r =
     (if overflow_threshold \<le> m then signed_inf (r < 0)
      else if m = 0 then signed_zero (r < 0)
      else Fin (if r < 0 then - m else m))"
    using round_double_nonzero [OF False] by (simp only: a i)
  with b p r s show ?thesis by simp
qed

lemma round_double_minus:
  assumes "round_double q = Fin r" "r \<noteq> 0"
  shows "round_double (- q) = Fin (- r)"
proof -
  define m where "m = round_magnitude \<bar>q\<bar>"
  from round_double_Fin [OF assms]
  have q: "q \<noteq> 0" and p: "0 < m" and b: "m < overflow_threshold"
    and r: "r = (if q < 0 then - m else m)"
    by (simp_all add: m_def)
  from q have "- q \<noteq> 0" by simp
  from round_double_nonzero [OF this]
  have "round_double (- q) =
     (if overflow_threshold \<le> m then signed_inf (- q < 0)
      else if m = 0 then signed_zero (- q < 0)
      else Fin (if - q < 0 then - m else m))"
    by (simp only: abs_minus_cancel m_def)
  with b p r q show ?thesis by auto
qed

lemma round_double_sign:
  assumes "round_double q = Fin r" "0 < r"
  shows "0 < q"
proof -
  from assms have "r \<noteq> 0" by simp
  from round_double_Fin [OF assms(1) this] assms(2) show ?thesis
    by (simp split: if_splits)
qed

text \<open>A binary64 value is a multiple of \<open>2 ^ - 1074\<close>, hence of \<open>10 ^ - 1074\<close>.\<close>

lemma pow2_scaled:
  assumes "0 \<le> ue + int n"
  shows "\<exists>z. (2::rat) powi ue * 2 ^ n = of_int z"
proof -
  have "(2::rat) powi ue * 2 ^ n = 2 powi ue * 2 powi int n" by simp
  also have "\<dots> = 2 powi (ue + int n)" by (rule power_int_add [symmetric]) simp
  also have "\<dots> = 2 ^ nat (ue + int n)" using assms by (rule power_int_nonneg_exp)
  also have "\<dots> = of_int (2 ^ nat (ue + int n))" by simp
  finally show ?thesis by blast
qed

lemma ulp_scaled: "\<exists>z. ulp a * 2 ^ grid_bits = of_int z"
  unfolding ulp_def by (rule pow2_scaled) simp

lemma pow10_split: "(10::rat) ^ n = 2 ^ n * of_int (5 ^ n)"
proof -
  have "(10::rat) ^ n = (2 * 5) ^ n" by simp
  also have "\<dots> = 2 ^ n * 5 ^ n" by (rule power_mult_distrib)
  finally show ?thesis by simp
qed

lemma scaled_int:
  assumes "(r::rat) * 2 ^ n = of_int k"
  shows "of_int \<lfloor>r * 10 ^ n\<rfloor> = r * 10 ^ n"
proof -
  have "r * 10 ^ n = r * (2 ^ n * of_int (5 ^ n))" by (simp only: pow10_split)
  also have "\<dots> = r * 2 ^ n * of_int (5 ^ n)" by (simp only: mult.assoc)
  also have "\<dots> = of_int (k * 5 ^ n)" by (simp only: assms of_int_mult)
  finally show ?thesis by (simp only: floor_of_int)
qed

lemma double_scaled:
  assumes "round_double r = Fin r" "0 < r"
  shows "of_int \<lfloor>r * 10 ^ grid_bits\<rfloor> = r * 10 ^ grid_bits"
proof -
  from assms have "r \<noteq> 0" by simp
  from round_double_Fin [OF assms(1) this] assms(2)
  have r: "r = round_magnitude r" by (simp split: if_splits)
  define m where "m = round_half_even (r / ulp r)"
  obtain z where z: "ulp r * 2 ^ grid_bits = of_int z" using ulp_scaled by blast
  from r have "r = of_int m * ulp r" unfolding m_def round_magnitude_def [symmetric] .
  then have "r * 2 ^ grid_bits = of_int m * ulp r * 2 ^ grid_bits"
    by (rule arg_cong [where f = "\<lambda>x. x * 2 ^ grid_bits"])
  also have "\<dots> = of_int m * (ulp r * 2 ^ grid_bits)" by (rule mult.assoc)
  also have "\<dots> = of_int (m * z)" by (simp only: z of_int_mult)
  finally show ?thesis by (rule scaled_int)
qed

section \<open>Decimal digits\<close>

lemma small_int_cases:
  "0 \<le> d \<Longrightarrow> d < 10 \<Longrightarrow>
   d = 0 \<or> d = 1 \<or> d = 2 \<or> d = 3 \<or> d = 4 \<or> d = 5 \<or> d = 6 \<or> d = 7 \<or> d = 8 \<or> d = (9::int)"
  by arith

lemma digit_val_digit_char: "0 \<le> d \<Longrightarrow> d < 10 \<Longrightarrow> digit_val (digit_char d) = d"
proof -
  assume "0 \<le> d" "d < 10"
  then have "d = 0 \<or> d = 1 \<or> d = 2 \<or> d = 3 \<or> d = 4 \<or> d = 5 \<or> d = 6 \<or> d = 7 \<or> d = 8 \<or> d = 9"
    by (rule small_int_cases)
  then show ?thesis
    by (elim disjE) (simp_all add: digit_val_def digit_char_def)
qed

lemma is_digit_digit_char: "d < 10 \<Longrightarrow> is_digit (digit_char d)"
proof -
  assume "d < 10"
  then have "digit_char d \<in> set ''0123456789''" by (rule digit_char_mem)
  then show ?thesis by (auto simp: is_digit_chars)
qed

lemma digits_of_digits: "list_all is_digit (digits_of n)"
proof (induction n rule: digits_of.induct)
  case (1 n)
  show ?case
  proof (cases "n < 10")
    case True
    then show ?thesis by (simp add: digits_of_small is_digit_digit_char)
  next
    case False
    then have "list_all is_digit (digits_of (n div 10))" using "1" by simp
    moreover have "is_digit (digit_char (n mod 10))"
      by (rule is_digit_digit_char) simp
    ultimately show ?thesis using False by (simp add: digits_of_large)
  qed
qed

lemma digits_val_snoc: "digits_val (xs @ [c]) = 10 * digits_val xs + digit_val c"
  by (simp add: digits_val_def)

lemma digits_val_Nil: "digits_val [] = 0"
  by (simp add: digits_val_def)

lemma digits_val_append:
  "digits_val (xs @ ys) = digits_val xs * 10 ^ length ys + digits_val ys"
proof (induction ys rule: rev_induct)
  case Nil
  show ?case by (simp add: digits_val_Nil)
next
  case (snoc c ys)
  have "digits_val (xs @ ys @ [c]) = 10 * digits_val (xs @ ys) + digit_val c"
    using digits_val_snoc [of "xs @ ys" c] by simp
  then show ?case by (simp add: snoc digits_val_snoc algebra_simps)
qed

lemma digits_val_zeros: "digits_val (replicate m CHR ''0'') = 0"
proof (induction m)
  case 0
  show ?case by (simp add: digits_val_Nil)
next
  case (Suc m)
  have "replicate (Suc m) CHR ''0'' = replicate m CHR ''0'' @ [CHR ''0'']"
    by (simp add: replicate_append_same)
  then show ?case by (simp add: digits_val_snoc Suc digit_val_def del: replicate_Suc)
qed

lemma digits_val_digits_of: "0 \<le> n \<Longrightarrow> digits_val (digits_of n) = n"
proof (induction n rule: digits_of.induct)
  case (1 n)
  show ?case
  proof (cases "n < 10")
    case True
    with "1.prems" show ?thesis
      by (simp add: digits_of_small digits_val_def digit_val_digit_char)
  next
    case False
    with "1" have "digits_val (digits_of (n div 10)) = n div 10" by simp
    moreover have "digit_val (digit_char (n mod 10)) = n mod 10"
      by (rule digit_val_digit_char) simp_all
    ultimately show ?thesis using False by (simp add: digits_of_large digits_val_snoc)
  qed
qed

section \<open>Reading a decimal literal\<close>

lemma digit_not_space: "is_digit c \<Longrightarrow> \<not> is_whitespace c"
  by (auto simp: is_digit_def is_whitespace_def)

lemma takeWhile_digits:
  assumes "list_all is_digit xs" "r = [] \<or> \<not> is_digit (hd r)"
  shows "takeWhile is_digit (xs @ r) = xs" "dropWhile is_digit (xs @ r) = r"
proof -
  from assms(2) have t: "takeWhile is_digit r = []" by (cases r) auto
  from assms(2) have d: "dropWhile is_digit r = r" by (cases r) auto
  from assms(1) have a: "\<And>x. x \<in> set xs \<Longrightarrow> is_digit x" by (simp add: list_all_iff)
  show "takeWhile is_digit (xs @ r) = xs" using a t by (simp add: takeWhile_append2)
  show "dropWhile is_digit (xs @ r) = r" using a d by (simp add: dropWhile_append2)
qed

lemma literal_value_integer:
  assumes "list_all is_digit ip" "ip \<noteq> []"
    and "r = [] \<or> \<not> is_digit (hd r) \<and> hd r \<noteq> CHR ''.''"
  shows "literal_value (ip @ r) = Some (of_int (digits_val ip) * 10 powi exponent_part r)"
proof -
  from assms(3) have r: "r = [] \<or> \<not> is_digit (hd r)" by blast
  from assms(3) have f: "fraction_part r = ([], r)"
    by (cases r) (auto simp: fraction_part_def)
  show ?thesis
    using assms(2)
    by (simp add: literal_value_def takeWhile_digits [OF assms(1) r] f)
qed

lemma literal_value_fraction:
  assumes "list_all is_digit ip" "list_all is_digit fp" "ip \<noteq> [] \<or> fp \<noteq> []"
    and "r = [] \<or> \<not> is_digit (hd r)"
  shows "literal_value (ip @ CHR ''.'' # fp @ r) =
    Some (of_int (digits_val (ip @ fp)) * 10 powi (exponent_part r - int (length fp)))"
proof -
  have p: "CHR ''.'' # fp @ r = [] \<or> \<not> is_digit (hd (CHR ''.'' # fp @ r))"
    by (simp add: not_digit_chars)
  have f: "fraction_part (CHR ''.'' # fp @ r) = (fp, r)"
    by (simp add: fraction_part_def takeWhile_digits [OF assms(2) assms(4)])
  show ?thesis
    using assms(3)
    by (simp add: literal_value_def takeWhile_digits [OF assms(1) p] f)
qed

lemma split_sign_chars:
  "split_sign (CHR ''+'' # t) = (False, t)" "split_sign (CHR ''-'' # t) = (True, t)"
  by (simp_all add: split_sign_def)

lemma exponent_part_Nil: "exponent_part [] = 0"
  by (simp add: exponent_part_def)

lemma takeWhile_digits_of: "takeWhile is_digit (digits_of m) = digits_of m"
  using digits_of_digits [of m] by (simp add: list_all_iff)

lemma exponent_part_plus:
  "0 \<le> m \<Longrightarrow> exponent_part (CHR ''e'' # CHR ''+'' # digits_of m) = m"
  by (simp add: exponent_part_def split_sign_chars takeWhile_digits_of digits_of_nonempty
      digits_val_digits_of)

lemma exponent_part_minus:
  "0 \<le> m \<Longrightarrow> exponent_part (CHR ''e'' # CHR ''-'' # digits_of m) = - m"
  by (simp add: exponent_part_def split_sign_chars takeWhile_digits_of digits_of_nonempty
      digits_val_digits_of)

lemma parseFloat_digit_first:
  assumes "is_digit c"
  shows "parseFloat (c # t) =
    (case literal_value (c # t) of
       None \<Rightarrow> NaN
     | Some mv \<Rightarrow> if mv = 0 then Fin 0 else round_double mv)"
proof -
  from assms have n: "c \<noteq> CHR ''-''" "c \<noteq> CHR ''+''" "c \<noteq> CHR ''I''"
    using not_digit_chars by blast+
  have d: "dropWhile is_whitespace (c # t) = c # t"
    using digit_not_space [OF assms] by simp
  have s: "split_sign (c # t) = (False, c # t)"
    using n by (simp add: split_sign_def)
  have i: "(take 8 (c # t) = ''Infinity'') = False"
    using n by simp
  show ?thesis
    unfolding parseFloat_def d s
    by (simp only: Let_def prod.case i if_False signed_zero_def)
qed

lemma parseFloat_minus_digit:
  assumes "is_digit c"
  shows "parseFloat (CHR ''-'' # c # t) =
    (case literal_value (c # t) of
       None \<Rightarrow> NaN
     | Some mv \<Rightarrow> if mv = 0 then NegZero else round_double (- mv))"
proof -
  from assms have n: "c \<noteq> CHR ''I''" using not_digit_chars by blast
  have d: "dropWhile is_whitespace (CHR ''-'' # c # t) = CHR ''-'' # c # t"
    by (simp add: is_whitespace_def)
  have s: "split_sign (CHR ''-'' # c # t) = (True, c # t)"
    by (simp add: split_sign_def)
  have i: "(take 8 (c # t) = ''Infinity'') = False"
    using n by simp
  show ?thesis
    unfolding parseFloat_def d s
    by (simp only: Let_def prod.case i if_False if_True signed_zero_def)
qed

section \<open>Reading back what \<^verbatim>\<open>String\<close> prints\<close>

lemma exponent_part_signed:
  "exponent_part (''e'' @ (if 0 \<le> m then ''+'' else ''-'') @ digits_of \<bar>m\<bar>) = m"
proof (cases "0 \<le> m")
  case True
  then show ?thesis using exponent_part_plus [of "\<bar>m\<bar>"] by simp
next
  case False
  then show ?thesis using exponent_part_minus [of "\<bar>m\<bar>"] by simp
qed

lemma exponent_text_head:
  "\<not> is_digit (hd (''e'' @ x)) \<and> hd (''e'' @ x) \<noteq> CHR ''.''"
  by (simp add: not_digit_chars)

lemma digits_head: "\<exists>c t. digits_of s = c # t \<and> is_digit c"
proof (cases "digits_of s")
  case Nil
  then show ?thesis by (simp add: digits_of_nonempty)
next
  case (Cons c t)
  with digits_of_digits [of s] show ?thesis by simp
qed

lemma layout_head: "\<exists>c t. layout sn = c # t \<and> is_digit c"
proof -
  obtain c t where d: "digits_of (fst sn) = c # t" "is_digit c" using digits_head by blast
  show ?thesis
    by (cases "0 < snd sn") (auto simp: layout_def Let_def d is_digit_chars take_Cons')
qed

lemma zeros_digits: "list_all is_digit (replicate m CHR ''0'')"
  by (induction m) (simp_all add: is_digit_chars)

lemma literal_value_layout:
  assumes "0 < s"
  shows "literal_value (layout (s, n)) = Some (decimal_value (s, n))"
proof -
  define ds where "ds = digits_of s"
  define k where "k = int (length ds)"
  have D: "list_all is_digit ds" unfolding ds_def by (rule digits_of_digits)
  have V: "digits_val ds = s" unfolding ds_def using assms by (simp add: digits_val_digits_of)
  have N: "ds \<noteq> []" unfolding ds_def by (rule digits_of_nonempty)
  then have k1: "1 \<le> k" unfolding k_def by (cases ds) simp_all
  have dv: "decimal_value (s, n) = of_int s * 10 powi (n - k)"
    by (simp add: decimal_value_def k_def ds_def)
  have L: "layout (s, n) =
     (if k \<le> n \<and> n \<le> 21 then ds @ replicate (nat (n - k)) CHR ''0''
      else if 0 < n \<and> n \<le> 21 then take (nat n) ds @ ''.'' @ drop (nat n) ds
      else if - 6 < n \<and> n \<le> 0 then ''0.'' @ replicate (nat (- n)) CHR ''0'' @ ds
      else if k = 1 then ds @ ''e'' @ (if 0 \<le> n - 1 then ''+'' else ''-'') @ digits_of \<bar>n - 1\<bar>
      else take 1 ds @ ''.'' @ drop 1 ds @ ''e'' @ (if 0 \<le> n - 1 then ''+'' else ''-'') @ digits_of \<bar>n - 1\<bar>)"
    by (simp add: layout_def Let_def ds_def k_def)
  define ex where "ex = ''e'' @ (if 0 \<le> n - 1 then ''+'' else ''-'') @ digits_of \<bar>n - 1\<bar>"
  have E: "exponent_part ex = n - 1" unfolding ex_def by (rule exponent_part_signed)
  have H: "\<not> is_digit (hd ex) \<and> hd ex \<noteq> CHR ''.''" unfolding ex_def by (rule exponent_text_head)
  consider (plain) "k \<le> n" "n \<le> 21"
    | (point) "\<not> (k \<le> n \<and> n \<le> 21)" "0 < n" "n \<le> 21"
    | (small) "\<not> (k \<le> n \<and> n \<le> 21)" "- 6 < n" "n \<le> 0"
    | (exp1) "\<not> (k \<le> n \<and> n \<le> 21)" "\<not> (0 < n \<and> n \<le> 21)" "\<not> (- 6 < n \<and> n \<le> 0)" "k = 1"
    | (expk) "\<not> (k \<le> n \<and> n \<le> 21)" "\<not> (0 < n \<and> n \<le> 21)" "\<not> (- 6 < n \<and> n \<le> 0)" "k \<noteq> 1"
    by linarith
  then show ?thesis
  proof cases
    case plain
    let ?z = "replicate (nat (n - k)) CHR ''0''"
    have "layout (s, n) = (ds @ ?z) @ []" using plain by (simp add: L)
    moreover have "list_all is_digit (ds @ ?z)" using D zeros_digits by simp
    ultimately have "literal_value (layout (s, n)) =
        Some (of_int (digits_val (ds @ ?z)) * 10 powi exponent_part [])"
      using N by (simp only: literal_value_integer [of "ds @ ?z" "[]"] append_is_Nil_conv simp_thms)
    moreover have "digits_val (ds @ ?z) = s * 10 ^ nat (n - k)"
      by (simp add: digits_val_append digits_val_zeros V)
    moreover have "(10::rat) powi (n - k) = 10 ^ nat (n - k)"
      using plain by (simp add: power_int_nonneg_exp)
    ultimately show ?thesis by (simp add: dv exponent_part_Nil)
  next
    case point
    then have nk: "n < k" by linarith
    let ?ip = "take (nat n) ds" and ?fp = "drop (nat n) ds"
    have "layout (s, n) = ?ip @ CHR ''.'' # ?fp @ []" using point by (simp add: L)
    moreover have "list_all is_digit ?ip" "list_all is_digit ?fp"
      using D by (auto simp: list_all_iff dest: in_set_takeD in_set_dropD)
    moreover have "?ip \<noteq> [] \<or> ?fp \<noteq> []" using N point by simp
    ultimately have "literal_value (layout (s, n)) =
        Some (of_int (digits_val (?ip @ ?fp)) * 10 powi (exponent_part [] - int (length ?fp)))"
      by (simp only: literal_value_fraction [of ?ip ?fp "[]"] simp_thms)
    moreover have "int (length ?fp) = k - n" using point nk by (simp add: k_def)
    ultimately show ?thesis by (simp add: dv exponent_part_Nil V)
  next
    case small
    let ?fp = "replicate (nat (- n)) CHR ''0'' @ ds"
    have "layout (s, n) = ''0'' @ CHR ''.'' # ?fp @ []" using small by (simp add: L)
    moreover have "list_all is_digit ''0''" "list_all is_digit ?fp"
      using D zeros_digits by (simp_all add: is_digit_chars)
    moreover have "''0'' \<noteq> [] \<or> ?fp \<noteq> []" by simp
    ultimately have lv: "literal_value (layout (s, n)) =
        Some (of_int (digits_val (''0'' @ ?fp)) * 10 powi (exponent_part [] - int (length ?fp)))"
      by (simp only: literal_value_fraction [of "''0''" ?fp "[]"] simp_thms)
    have v: "digits_val (''0'' @ ?fp) = s"
    proof -
      have "''0'' @ ?fp = replicate (Suc (nat (- n))) CHR ''0'' @ ds" by simp
      then show ?thesis by (simp only: digits_val_append digits_val_zeros V)
    qed
    have l: "exponent_part [] - int (length ?fp) = n - k"
      using small by (simp add: exponent_part_Nil k_def)
    show ?thesis by (simp only: lv v l dv)
  next
    case exp1
    have "layout (s, n) = ds @ ex" using exp1 by (auto simp: L ex_def)
    then have "literal_value (layout (s, n)) =
        Some (of_int (digits_val ds) * 10 powi exponent_part ex)"
      using D N H by (simp only: literal_value_integer [of ds ex] simp_thms)
    then show ?thesis using exp1(4) by (simp add: dv V E)
  next
    case expk
    let ?ip = "take 1 ds" and ?fp = "drop 1 ds"
    have "layout (s, n) = ?ip @ CHR ''.'' # ?fp @ ex" using expk by (auto simp: L ex_def)
    moreover have "list_all is_digit ?ip" "list_all is_digit ?fp"
      using D by (auto simp: list_all_iff dest: in_set_takeD in_set_dropD)
    moreover have "?ip \<noteq> [] \<or> ?fp \<noteq> []" using N by simp
    moreover have "ex = [] \<or> \<not> is_digit (hd ex)" using H by simp
    ultimately have "literal_value (layout (s, n)) =
        Some (of_int (digits_val (?ip @ ?fp)) * 10 powi (exponent_part ex - int (length ?fp)))"
      by (simp only: literal_value_fraction [of ?ip ?fp ex] simp_thms)
    moreover have "int (length ?fp) = k - 1" using k1 by (simp add: k_def)
    ultimately show ?thesis by (simp add: dv V E)
  qed
qed

section \<open>The shortest decimal rounds back\<close>

lemma candidate_sound: "candidate x n k = Some sn \<Longrightarrow> rounds_to x sn"
  by (auto simp: candidate_def Let_def split: if_splits)

lemma candidate_nonneg:
  assumes "0 < x" "candidate x n k = Some sn"
  shows "0 \<le> fst sn"
proof -
  have "0 \<le> x / 10 powi (n - int k)" using assms(1) by simp
  then have "0 \<le> \<lfloor>x / 10 powi (n - int k)\<rfloor>" by simp
  with assms(2) show ?thesis
    by (auto simp: candidate_def Let_def split: if_splits)
qed

lemma shortest_from_sound:
  "shortest_from x n k j = Some sn \<Longrightarrow> rounds_to x sn \<and> (0 < x \<longrightarrow> 0 \<le> fst sn)"
proof (induction j arbitrary: k)
  case 0
  then show ?case by simp
next
  case (Suc j)
  show ?case
  proof (cases "candidate x n k")
    case None
    with Suc.prems have "shortest_from x n (Suc k) j = Some sn" by simp
    then show ?thesis by (rule Suc.IH)
  next
    case (Some c)
    with Suc.prems have "c = sn" by simp
    with Some candidate_sound [of x n k sn] candidate_nonneg [of x n k sn]
    show ?thesis by simp
  qed
qed

lemma pow10_cancel: "x * (10::rat) ^ m * 10 powi (- int m) = x"
  by (simp add: power_int_minus)

lemma rounds_to_nonzero:
  assumes "rounds_to x sn" "x \<noteq> 0"
  shows "decimal_value sn \<noteq> 0"
proof
  assume "decimal_value sn = 0"
  with assms(1) have "round_double 0 = Fin x" by (simp add: rounds_to_def)
  with assms(2) show False by (simp add: round_double_def)
qed

lemma decimal_value_zero: "fst sn = 0 \<Longrightarrow> decimal_value sn = 0"
  by (simp add: decimal_value_def)

lemma shortest_decimal_sound:
  assumes "0 < x" "round_double x = Fin x"
  shows "rounds_to x (shortest_decimal x) \<and> 0 < fst (shortest_decimal x)"
proof (cases "shortest_from x (decimal_exponent x) 1 17")
  case (Some sn)
  then have s: "shortest_decimal x = sn" by (simp add: shortest_decimal_def)
  from shortest_from_sound [OF Some] assms(1)
  have r: "rounds_to x sn" and n: "0 \<le> fst sn" by simp_all
  have "decimal_value sn \<noteq> 0" using rounds_to_nonzero [OF r] assms(1) by simp
  then have "fst sn \<noteq> 0" using decimal_value_zero by blast
  with n r s show ?thesis by simp
next
  case None
  define z where "z = \<lfloor>x * 10 ^ grid_bits\<rfloor>"
  define l where "l = int (length (digits_of z))"
  from None have s: "shortest_decimal x = (z, l - int grid_bits)"
    by (simp add: shortest_decimal_def Let_def z_def l_def)
  have e: "of_int z = x * 10 ^ grid_bits"
    unfolding z_def using assms(2) assms(1) by (rule double_scaled)
  have "(0::rat) < x * 10 ^ grid_bits" using assms(1) by simp
  then have "(0::rat) < of_int z" by (simp only: e)
  then have p: "0 < z" by (simp only: of_int_0_less_iff)
  have "l - int grid_bits - l = - int grid_bits" by simp
  then have "decimal_value (z, l - int grid_bits) = of_int z * 10 powi (- int grid_bits)"
    by (simp only: decimal_value_def fst_conv snd_conv l_def [symmetric])
  also have "\<dots> = x" by (simp only: e pow10_cancel)
  finally have "rounds_to x (z, l - int grid_bits)" using assms(2) by (simp only: rounds_to_def)
  with p s show ?thesis by simp
qed

section \<open>Printing and reading a binary64 value\<close>

lemma parse_layout:
  assumes "0 < fst sn" "decimal_value sn \<noteq> 0"
  shows "parseFloat (layout sn) = round_double (decimal_value sn)"
    and "parseFloat (''-'' @ layout sn) = round_double (- decimal_value sn)"
proof -
  obtain c t where l: "layout sn = c # t" "is_digit c" using layout_head by blast
  have v: "literal_value (c # t) = Some (decimal_value sn)"
    using literal_value_layout [OF assms(1), of "snd sn"] by (simp add: l)
  show "parseFloat (layout sn) = round_double (decimal_value sn)"
    using assms(2) by (simp add: l(1) parseFloat_digit_first [OF l(2)] v)
  show "parseFloat (''-'' @ layout sn) = round_double (- decimal_value sn)"
    using assms(2) by (simp add: l(1) parseFloat_minus_digit [OF l(2)] v)
qed

lemma parse_print:
  assumes "round_double q = Fin q" "q \<noteq> 0"
  shows "parseFloat (numToString (Fin q)) = Fin q"
proof (cases "0 < q")
  case True
  from shortest_decimal_sound [OF True assms(1)]
  have r: "rounds_to q (shortest_decimal q)" and p: "0 < fst (shortest_decimal q)" by simp_all
  from r assms(2) have n: "decimal_value (shortest_decimal q) \<noteq> 0" by (rule rounds_to_nonzero)
  have "numToString (Fin q) = layout (shortest_decimal q)"
    using True by (simp add: numToString_def)
  then show ?thesis using parse_layout(1) [OF p n] r by (simp add: rounds_to_def)
next
  case False
  with assms(2) have neg: "q < 0" by simp
  then have pos: "0 < - q" by simp
  have m: "round_double (- q) = Fin (- q)" using assms by (rule round_double_minus)
  from shortest_decimal_sound [OF pos m]
  have r: "rounds_to (- q) (shortest_decimal (- q))" and p: "0 < fst (shortest_decimal (- q))"
    by simp_all
  from r have n: "decimal_value (shortest_decimal (- q)) \<noteq> 0"
    by (rule rounds_to_nonzero) (use assms(2) in simp)
  from r have "round_double (decimal_value (shortest_decimal (- q))) = Fin (- q)"
    by (simp add: rounds_to_def)
  then have "round_double (- decimal_value (shortest_decimal (- q))) = Fin (- (- q))"
    by (rule round_double_minus) (use assms(2) in simp)
  moreover have "numToString (Fin q) = ''-'' @ layout (shortest_decimal (- q))"
    using neg by (simp add: numToString_def)
  ultimately show ?thesis using parse_layout(2) [OF p n] by simp
qed

lemma parseFloat_double:
  assumes "parseFloat d = Fin q"
  shows "round_double q = Fin q"
proof -
  have z: "round_double 0 = Fin 0" by (simp add: round_double_def)
  from assms show ?thesis
    by (auto simp: parseFloat_def Let_def signed_inf_def signed_zero_def z
        split: prod.splits option.splits if_splits dest: round_double_idem)
qed

text \<open>What the display parses to after the sign change.\<close>

lemma toggle_finite:
  assumes "parseFloat d = Fin q"
  shows "parseFloat (numToString (js_mul (parseFloat d) (Fin (- 1)))) = Fin (- q)"
proof (cases "q = 0")
  case True
  then have "js_mul (parseFloat d) (Fin (- 1)) = NegZero"
    by (simp add: assms js_mul_def signed_zero_def)
  then show ?thesis using True by (simp add: numToString_def parseFloat_eval)
next
  case False
  have d: "round_double q = Fin q" using assms by (rule parseFloat_double)
  then have m: "round_double (- q) = Fin (- q)" using False by (rule round_double_minus)
  have "js_mul (parseFloat d) (Fin (- 1)) = round_double (- q)"
    using False by (simp add: assms js_mul_def)
  then have "js_mul (parseFloat d) (Fin (- 1)) = Fin (- q)" by (simp only: m)
  moreover have "parseFloat (numToString (Fin (- q))) = Fin (- q)"
    using m by (rule parse_print) (use False in simp)
  ultimately show ?thesis by simp
qed

lemma toggle_negative_zero:
  assumes "parseFloat d = NegZero"
  shows "parseFloat (numToString (js_mul (parseFloat d) (Fin (- 1)))) = Fin 0"
proof -
  have "js_mul (parseFloat d) (Fin (- 1)) = Fin 0"
    by (simp add: assms js_mul_def signed_zero_def)
  then show ?thesis by (simp add: numToString_def parseFloat_eval)
qed

text \<open>
  C8. Changing the sign twice gives back the number on the display: whenever the display
  parses to a finite number, the display after two sign changes parses to a number that is
  \<^verbatim>\<open>===\<close> to it, and to the very same number unless that was negative zero, which comes
  back as positive zero.
\<close>

theorem toggle_sign_twice:
  "isFinite (parseFloat (displayValue s)) \<Longrightarrow>
   strict_eq (parseFloat (displayValue (press (press s ToggleSign) ToggleSign)))
     (parseFloat (displayValue s)) \<and>
   (parseFloat (displayValue s) \<noteq> NegZero \<longrightarrow>
    parseFloat (displayValue (press (press s ToggleSign) ToggleSign)) =
      parseFloat (displayValue s))"
proof -
  assume f: "isFinite (parseFloat (displayValue s))"
  define d1 where "d1 = numToString (js_mul (parseFloat (displayValue s)) (Fin (- 1)))"
  define d2 where "d2 = numToString (js_mul (parseFloat d1) (Fin (- 1)))"
  have t: "displayValue (press (press s ToggleSign) ToggleSign) = d2"
    by (simp add: toggleSign_def d1_def d2_def)
  show ?thesis
  proof (cases "parseFloat (displayValue s)")
    case (Fin q)
    then have "parseFloat d1 = Fin (- q)" unfolding d1_def by (rule toggle_finite)
    then have "parseFloat d2 = Fin (- (- q))" unfolding d2_def by (rule toggle_finite)
    with Fin t show ?thesis by (simp add: strict_eq_def)
  next
    case NegZero
    then have "parseFloat d1 = Fin 0" unfolding d1_def by (rule toggle_negative_zero)
    then have "parseFloat d2 = Fin (- 0)" unfolding d2_def by (rule toggle_finite)
    with NegZero t show ?thesis by (simp add: strict_eq_def)
  next
    case PosInfinity
    with f show ?thesis by simp
  next
    case NegInfinity
    with f show ?thesis by simp
  next
    case NaN
    with f show ?thesis by simp
  qed
qed

theorem toggle_sign_twice_witness:
  "isFinite (parseFloat (displayValue (run [Digit ''5'']))) \<and>
   parseFloat (displayValue (press (press (run [Digit ''5'']) ToggleSign) ToggleSign)) = Fin 5"
proof -
  have d: "displayValue (run [Digit ''5'']) = ''5''"
    by (simp add: run_def handleDigit_def initialState_def)
  then have p: "parseFloat (displayValue (run [Digit ''5''])) = Fin 5"
    by (simp add: parseFloat_eval)
  then have f: "isFinite (parseFloat (displayValue (run [Digit ''5''])))" by simp
  from toggle_sign_twice [OF f] p f show ?thesis by simp
qed

section \<open>Texts that read as a number\<close>

lemma round_double_not_NaN: "round_double q \<noteq> NaN"
  by (simp add: round_double_def Let_def signed_inf_def signed_zero_def)




lemma parseFloat_numeric:
  assumes "take 8 t = ''Infinity'' \<or> literal_value t \<noteq> None"
    and "split_sign (dropWhile is_whitespace str) = (neg, t)"
  shows "parseFloat str \<noteq> NaN"
  using assms
  by (auto simp: parseFloat_def Let_def signed_inf_def signed_zero_def round_double_not_NaN
      split: option.splits)

lemma parseFloat_NaN:
  assumes "parseFloat str = NaN" "split_sign (dropWhile is_whitespace str) = (neg, t)"
  shows "take 8 t \<noteq> ''Infinity'' \<and> literal_value t = None"
  using assms parseFloat_numeric [of t str neg] by blast














section \<open>What the display can read\<close>

















end
